theory Spec2Isabelle
  imports Complex_Main
begin

section \<open>JavaScript values and objects\<close>

text \<open>
  The numbers of the model are \<open>NaN\<close> and the integers of magnitude below \<open>2^53\<close>. Each
  of these integers is a number of the program (a double), different integers are
  different numbers, and \<open>String\<close> and \<open>JSON.stringify\<close> print them in decimal. (The
  two zeros of the program are one number here: they are equal under \<open>===\<close> and
  both print as \<open>0\<close>.)
\<close>

typedef safe_integer = "{i :: int. \<bar>i\<bar> < 9007199254740992}"
  morphisms integer_of safe_integer
  by (rule exI [of _ 0]) simp

text \<open>
  Cells of a row hold primitive values: \<open>undefined\<close>, \<open>null\<close>, booleans, numbers and
  strings. Objects (dates, arrays, functions) are not among the values modelled.
\<close>

datatype jsval = Undefined | Null | Bool bool | NaN | Num safe_integer | Str string

text \<open>
  Strict equality (\<open>===\<close>) of primitive values: equality of the values, except that \<open>NaN\<close>
  is equal to nothing, not even to itself.
\<close>

definition strict_equals :: "jsval \<Rightarrow> jsval \<Rightarrow> bool" where
  "strict_equals a b = (a = b \<and> a \<noteq> NaN)"

datatype error =
    TypeError
  | FileNotFound string
  | NoRowsFound string
  | NoForeignRow
  | GeneratorError string
  | QueryError string

text \<open>Decimal rendering of a number, as \<open>String(n)\<close> gives it for an integer.\<close>

definition digit_char :: "nat \<Rightarrow> char" where
  "digit_char d = ''0123456789'' ! d"

function dec_nat :: "nat \<Rightarrow> string" where
  "dec_nat n = (if n < 10 then [digit_char n] else dec_nat (n div 10) @ [digit_char (n mod 10)])"
  by pat_completeness auto
termination
  by (relation "measure id") auto

definition dec_int :: "int \<Rightarrow> string" where
  "dec_int i = (if i < 0 then CHR ''-'' # dec_nat (nat (- i)) else dec_nat (nat i))"

text \<open>A value used as a property name (\<open>acc[v]\<close>) is converted to a string.\<close>

fun to_key :: "jsval \<Rightarrow> string" where
  "to_key Undefined = ''undefined''"
| "to_key Null = ''null''"
| "to_key (Bool b) = (if b then ''true'' else ''false'')"
| "to_key NaN = ''NaN''"
| "to_key (Num n) = dec_int (integer_of n)"
| "to_key (Str s) = s"

text \<open>
  An object is the list of its own properties in enumeration order (the order of
  \<open>Object.keys\<close>, \<open>Object.entries\<close> and \<open>for ... in\<close>): names that are
  array indices first, in ascending numeric order, then the other names in the order
  in which they were first added.
\<close>

type_synonym 'v obj = "(string \<times> 'v) list"

definition digit_value :: "char \<Rightarrow> nat option" where
  "digit_value c = (if c \<in> set ''0123456789'' then Some (of_char c - 48) else None)"

fun digits_value :: "nat \<Rightarrow> string \<Rightarrow> nat option" where
  "digits_value acc [] = Some acc"
| "digits_value acc (c # cs) =
     (case digit_value c of None \<Rightarrow> None | Some d \<Rightarrow> digits_value (10 * acc + d) cs)"

definition array_index :: "string \<Rightarrow> nat option" where
  "array_index s =
     (if s = [] then None
      else if hd s = CHR ''0'' \<and> tl s \<noteq> [] then None
      else (case digits_value 0 s of
              None \<Rightarrow> None
            | Some n \<Rightarrow> if n < 4294967295 then Some n else None))"

definition keys :: "'v obj \<Rightarrow> string list" where
  "keys ob = map fst ob"

definition has_key :: "'v obj \<Rightarrow> string \<Rightarrow> bool" where
  "has_key ob k = (k \<in> set (keys ob))"

definition obj_get :: "'v obj \<Rightarrow> string \<Rightarrow> 'v option" where
  "obj_get ob k = map_of ob k"

fun insert_index :: "nat \<Rightarrow> string \<Rightarrow> 'v \<Rightarrow> 'v obj \<Rightarrow> 'v obj" where
  "insert_index n k v [] = [(k, v)]"
| "insert_index n k v ((k', v') # rest) =
     (case array_index k' of
        Some m \<Rightarrow> if m < n then (k', v') # insert_index n k v rest
                  else (k, v) # (k', v') # rest
      | None \<Rightarrow> (k, v) # (k', v') # rest)"

text \<open>
  Giving an object the property \<open>k\<close> with value \<open>v\<close>: the value of a property it has is
  replaced, a new property takes its place in the enumeration order.
\<close>

definition define_own :: "'v obj \<Rightarrow> string \<Rightarrow> 'v \<Rightarrow> 'v obj" where
  "define_own ob k v =
     (if has_key ob k then map (\<lambda>(k', v'). if k' = k then (k', v) else (k', v')) ob
      else (case array_index k of
              Some n \<Rightarrow> insert_index n k v ob
            | None \<Rightarrow> ob @ [(k, v)]))"

text \<open>
  The assignment \<open>ob[k] = v\<close> to an object created as \<open>{}\<close>, whose prototype is
  \<open>Object.prototype\<close>. It gives the object the property, with one exception: unless the
  object has a property of its own named \<open>__proto__\<close>, an assignment to that name is
  taken by the setter of \<open>Object.prototype\<close>, which replaces the prototype of the object
  when \<open>v\<close> is an object or \<open>null\<close> and does nothing for any other value. In both cases
  the object gets no property.
\<close>

definition obj_set :: "'v obj \<Rightarrow> string \<Rightarrow> 'v \<Rightarrow> 'v obj" where
  "obj_set ob k v = (if k = ''__proto__'' \<and> \<not> has_key ob k then ob else define_own ob k v)"

text \<open>
  The properties of \<open>Object.prototype\<close>. An object that has no property of its own by
  one of these names answers a read of the name with the inherited member, which is a
  function, or \<open>Object.prototype\<close> itself for \<open>__proto__\<close>.
\<close>

definition object_prototype_members :: "string list" where
  "object_prototype_members =
     [''constructor'', ''__defineGetter__'', ''__defineSetter__'', ''hasOwnProperty'',
      ''__lookupGetter__'', ''__lookupSetter__'', ''isPrototypeOf'', ''propertyIsEnumerable'',
      ''toString'', ''valueOf'', ''__proto__'', ''toLocaleString'']"

text \<open>
  The string such a member converts to: \<open>function name() { [native code] }\<close> for a
  built-in function (the one read as \<open>constructor\<close> is \<open>Object\<close>), \<open>[object Object]\<close> for
  \<open>Object.prototype\<close>.
\<close>

definition member_string :: "string \<Rightarrow> string" where
  "member_string member =
     (if member = ''__proto__'' then ''[object Object]''
      else ''function '' @ (if member = ''constructor'' then ''Object'' else member)
             @ ''() { [native code] }'')"

type_synonym Row = "jsval obj"

text \<open>
  Reading \<open>row[name]\<close> as a value: the value of the property, \<open>undefined\<close> for a name
  that is not a property of the row. The names a row inherits from \<open>Object.prototype\<close>
  read as objects, which are outside the values modelled; as property names they are
  covered by \<open>row_key\<close> below.
\<close>

definition row_get :: "Row \<Rightarrow> string \<Rightarrow> jsval" where
  "row_get row name = (case obj_get row name of None \<Rightarrow> Undefined | Some v \<Rightarrow> v)"

text \<open>
  \<open>row[name]\<close> used as a property name, for a row parsed from a snapshot (its prototype
  is \<open>Object.prototype\<close>).
\<close>

definition row_key :: "Row \<Rightarrow> string \<Rightarrow> string" where
  "row_key row name =
     (case obj_get row name of
        Some v \<Rightarrow> to_key v
      | None \<Rightarrow> if name \<in> set object_prototype_members then member_string name else ''undefined'')"

text \<open>
  What \<open>JSON.parse\<close> reads back from the \<open>JSON.stringify\<close> of a row: a property whose
  value is \<open>undefined\<close> is left out and \<open>NaN\<close> is written as \<open>null\<close>.
\<close>

definition written_row :: "Row \<Rightarrow> Row" where
  "written_row row = map (\<lambda>(k, v). (k, if v = NaN then Null else v)) (filter (\<lambda>(k, v). v \<noteq> Undefined) row)"

section \<open>Deduplication by primary keys\<close>

text \<open>\<open>Array.prototype.findIndex\<close>: the first index whose element satisfies the predicate, or -1.\<close>

fun findIndex_from :: "nat \<Rightarrow> ('a \<Rightarrow> bool) \<Rightarrow> 'a list \<Rightarrow> int" where
  "findIndex_from i P [] = - 1"
| "findIndex_from i P (x # xs) = (if P x then int i else findIndex_from (Suc i) P xs)"

definition findIndex :: "('a \<Rightarrow> bool) \<Rightarrow> 'a list \<Rightarrow> int" where
  "findIndex P xs = findIndex_from 0 P xs"

text \<open>\<open>primaryKeys.every((key) => t[key] === row[key])\<close>\<close>

definition same_primary_key :: "string list \<Rightarrow> Row \<Rightarrow> Row \<Rightarrow> bool" where
  "same_primary_key primaryKeys t row =
     list_all (\<lambda>key. strict_equals (row_get t key) (row_get row key)) primaryKeys"

text \<open>
  \<open>rows.filter((row, index, self) => index === self.findIndex((t) => ...))\<close>
\<close>

definition deduplicate :: "string list \<Rightarrow> Row list \<Rightarrow> Row list" where
  "deduplicate primaryKeys rows =
     map snd (filter (\<lambda>(index, row). int index = findIndex (\<lambda>t. same_primary_key primaryKeys t row) rows)
                (enumerate 0 rows))"

text \<open>\<open>let deduplicatedRows = rows; if (primaryKeys) { deduplicatedRows = ... }\<close>\<close>

definition deduplicatedRows :: "string list option \<Rightarrow> Row list \<Rightarrow> Row list" where
  "deduplicatedRows primaryKeys rows =
     (case primaryKeys of None \<Rightarrow> rows | Some pks \<Rightarrow> deduplicate pks rows)"


section \<open>Properties of objects\<close>

lemma map_of_insert_index:
  "k \<notin> fst ` set ob \<Longrightarrow> map_of (insert_index n k v ob) k' = (if k' = k then Some v else map_of ob k')"
  by (induction ob) (auto split: option.splits)

lemma map_of_overwrite_other:
  "k' \<noteq> k \<Longrightarrow> map_of (map (\<lambda>(k', v'). if k' = k then (k', v) else (k', v')) ob) k' = map_of ob k'"
  by (induction ob) auto

lemma map_of_overwrite_same:
  "k \<in> fst ` set ob \<Longrightarrow> map_of (map (\<lambda>(k', v'). if k' = k then (k', v) else (k', v')) ob) k = Some v"
  by (induction ob) auto

lemma map_of_overwrite:
  "k \<in> fst ` set ob \<Longrightarrow>
   map_of (map (\<lambda>(k', v'). if k' = k then (k', v) else (k', v')) ob) k' = (if k' = k then Some v else map_of ob k')"
  by (simp add: map_of_overwrite_other map_of_overwrite_same)

lemma map_of_append_new:
  "k \<notin> fst ` set ob \<Longrightarrow> map_of (ob @ [(k, v)]) k' = (if k' = k then Some v else map_of ob k')"
  by (induction ob) auto

lemma fst_overwrite: "fst \<circ> (\<lambda>(k', v'). if k' = k then (k', v) else (k', v')) = fst"
  by (auto simp: fun_eq_iff)

lemma set_insert_index: "set (map fst (insert_index n k v ob)) = insert k (set (map fst ob))"
proof (induction ob)
  case Nil
  then show ?case by simp
next
  case (Cons a ob)
  obtain k' v' where a: "a = (k', v')" by (cases a)
  show ?case
  proof (cases "array_index k'")
    case None
    with a show ?thesis by simp
  next
    case (Some m)
    with a Cons show ?thesis by (cases "m < n") (simp_all add: insert_commute)
  qed
qed

lemma distinct_insert_index:
  "k \<notin> set (map fst ob) \<Longrightarrow> distinct (map fst ob) \<Longrightarrow> distinct (map fst (insert_index n k v ob))"
proof (induction ob)
  case Nil
  then show ?case by simp
next
  case (Cons a ob)
  obtain k' v' where a: "a = (k', v')" by (cases a)
  with Cons have "k' \<notin> set (map fst (insert_index n k v ob))"
    unfolding set_insert_index by auto
  with Cons a show ?case by (auto split: option.splits)
qed

lemma obj_get_define_own: "obj_get (define_own ob k v) k' = (if k' = k then Some v else obj_get ob k')"
proof (cases "has_key ob k")
  case True
  then have "k \<in> fst ` set ob" by (simp add: has_key_def keys_def)
  from map_of_overwrite[OF this] True show ?thesis by (simp add: obj_get_def define_own_def)
next
  case False
  then have "k \<notin> fst ` set ob" by (simp add: has_key_def keys_def)
  from map_of_append_new[OF this] map_of_insert_index[OF this] False show ?thesis
    by (simp add: obj_get_def define_own_def split: option.splits)
qed

lemma keys_define_own: "set (keys (define_own ob k v)) = insert k (set (keys ob))"
proof (cases "has_key ob k")
  case True
  then have "k \<in> set (map fst ob)" by (simp add: has_key_def keys_def)
  with True show ?thesis
    unfolding define_own_def keys_def by (simp add: fst_overwrite insert_absorb)
next
  case False
  with set_insert_index[of _ k v ob] show ?thesis
    unfolding define_own_def keys_def by (simp split: option.splits)
qed

lemma has_key_obj_get: "has_key ob k \<longleftrightarrow> obj_get ob k \<noteq> None"
  by (simp add: has_key_def keys_def obj_get_def map_of_eq_None_iff)

lemma distinct_keys_define_own: "distinct (keys ob) \<Longrightarrow> distinct (keys (define_own ob k v))"
proof (cases "has_key ob k")
  case True
  assume "distinct (keys ob)"
  with True show ?thesis
    unfolding define_own_def keys_def by (simp add: fst_overwrite)
next
  case False
  assume "distinct (keys ob)"
  with False distinct_insert_index[of k ob _ v] show ?thesis
    unfolding define_own_def keys_def has_key_def by (simp split: option.splits)
qed

lemma row_get_define_own: "row_get (define_own row k v) k' = (if k' = k then v else row_get row k')"
  by (simp add: row_get_def obj_get_define_own)



lemma obj_get_obj_set_other: "k' \<noteq> k \<Longrightarrow> obj_get (obj_set ob k v) k' = obj_get ob k'"
  by (simp add: obj_set_def obj_get_define_own)


lemma obj_get_obj_set_same:
  "k \<noteq> ''__proto__'' \<or> has_key ob k \<Longrightarrow> obj_get (obj_set ob k v) k = Some v"
  by (auto simp: obj_set_def obj_get_define_own)

lemma has_key_obj_set_mono: "has_key ob k \<Longrightarrow> has_key (obj_set ob k' v) k"
  by (auto simp: obj_set_def has_key_def keys_define_own)

lemma keys_obj_set_subset: "set (keys (obj_set ob k v)) \<subseteq> insert k (set (keys ob))"
  by (auto simp: obj_set_def keys_define_own)

lemma distinct_keys_obj_set: "distinct (keys ob) \<Longrightarrow> distinct (keys (obj_set ob k v))"
  by (simp add: obj_set_def distinct_keys_define_own)

lemma integer_of_safe_integer: "\<bar>i\<bar> < 9007199254740992 \<Longrightarrow> integer_of (safe_integer i) = i"
  by (simp add: safe_integer_inverse)

lemma safe_integer_eq_iff:
  "\<bar>i\<bar> < 9007199254740992 \<Longrightarrow> \<bar>j\<bar> < 9007199254740992 \<Longrightarrow> safe_integer i = safe_integer j \<longleftrightarrow> i = j"
  by (simp add: safe_integer_inject)

text \<open>Unfolding these evaluates the object operations on concrete objects.\<close>

lemmas obj_eval = Let_def obj_set_def define_own_def has_key_def keys_def obj_get_def row_get_def array_index_def digit_value_def

section \<open>Table schema and the generator contract\<close>

record Column =
  column_name :: string
  data_type :: string
  is_nullable :: string
  column_default :: "string option"
  character_maximum_length :: "int option"

record ForeignKey =
  constraint_name :: string
  fk_column_name :: string
  foreign_table_name :: string
  foreign_column_name :: string

record TableSchema =
  columns :: "Column list"
  foreignKeys :: "ForeignKey list"

record ColumnValueGeneratorParams =
  currentRow :: Row
  columnSchema :: Column
  tableSchema :: TableSchema
  tableData :: "Row list"
  foreignRow :: "Row option"

text \<open>
  A generator is a function of its parameters. What it reads besides them (snapshot
  files, random numbers, the clock, its own closure state, the answer of the content
  provider) is its environment \<open>'e\<close> at the moment of the call; it either throws or
  returns a value. The engine does not depend on how a call changes that environment:
  it hands every call its environment, and the properties below hold for every
  environment, hence for every interleaving of the calls of rows generated concurrently.
\<close>

type_synonym 'e ColumnValueGenerator = "ColumnValueGeneratorParams \<Rightarrow> 'e \<Rightarrow> error + jsval"

type_synonym 'e ColumnGeneratorMap = "'e ColumnValueGenerator obj"

text \<open>The log of one generator invocation: the column, the parameters passed, the outcome.\<close>

record generator_call =
  call_column :: string
  call_params :: ColumnValueGeneratorParams
  call_result :: "error + jsval"


text \<open>
  \<open>generateRowsPromise(tableSchema, columns, row, rows, foreignRow)\<close>: the loop over
  \<open>Object.entries(columns)\<close>, which are the properties of the map in enumeration
  order. \<open>row[columnName] = value\<close> is an assignment to a row that was created by an
  object literal; no name is assigned twice, the names of the map being distinct. A
  thrown error ends the loop. Besides the outcome the model returns the invocations
  made, in order.
\<close>

fun generateRowsPromise ::
  "TableSchema \<Rightarrow> 'e ColumnGeneratorMap \<Rightarrow> Row \<Rightarrow> Row list \<Rightarrow> Row option \<Rightarrow> (string \<Rightarrow> 'e)
     \<Rightarrow> (error + Row) \<times> generator_call list" where
  "generateRowsPromise schema [] row rows parentRow env = (Inr row, [])"
| "generateRowsPromise schema ((columnName, generator) # rest) row rows parentRow env =
     (case find (\<lambda>column. column_name column = columnName) (columns schema) of
        None \<Rightarrow> generateRowsPromise schema rest row rows parentRow env
      | Some colSchema \<Rightarrow>
          (let params = \<lparr>currentRow = row, columnSchema = colSchema, tableSchema = schema,
                          tableData = rows, foreignRow = parentRow\<rparr>;
               result = generator params (env columnName);
               call = \<lparr>call_column = columnName, call_params = params, call_result = result\<rparr>
           in case result of
                Inl e \<Rightarrow> (Inl e, [call])
              | Inr v \<Rightarrow>
                  (case generateRowsPromise schema rest (obj_set row columnName v) rows parentRow env of
                     (finished, calls) \<Rightarrow> (finished, call # calls))))"

subsection \<open>Describing a run of \<open>generateRowsPromise\<close>\<close>

text \<open>The column has a schema: \<open>tableSchema.columns.find(...)\<close> finds one.\<close>

definition in_schema :: "TableSchema \<Rightarrow> string \<Rightarrow> bool" where
  "in_schema schema c = (find (\<lambda>column. column_name column = c) (columns schema) \<noteq> None)"

text \<open>The entries of the generator map whose column has a schema, in their order.\<close>

definition scheduled :: "TableSchema \<Rightarrow> 'e ColumnGeneratorMap \<Rightarrow> 'e ColumnGeneratorMap" where
  "scheduled schema cols = filter (\<lambda>(c, g). in_schema schema c) cols"

text \<open>The assignments \<open>row[column] = value\<close> that follow the successful invocations of a log.\<close>

fun assigned :: "generator_call list \<Rightarrow> (string \<times> jsval) list" where
  "assigned [] = []"
| "assigned (call # more_calls) =
     (case call_result call of
        Inl e \<Rightarrow> assigned more_calls
      | Inr v \<Rightarrow> (call_column call, v) # assigned more_calls)"

fun assign :: "Row \<Rightarrow> (string \<times> jsval) list \<Rightarrow> Row" where
  "assign row [] = row"
| "assign row ((c, v) # rest) = assign (obj_set row c v) rest"

subsection \<open>Built-in generators\<close>

definition returnConstValue :: "jsval \<Rightarrow> 'e ColumnValueGenerator" where
  "returnConstValue val params env = Inr val"

definition currentRowValue :: "string \<Rightarrow> 'e ColumnValueGenerator" where
  "currentRowValue key params env = Inr (row_get (currentRow params) key)"

definition foreignRowValue :: "string \<Rightarrow> 'e ColumnValueGenerator" where
  "foreignRowValue key params env =
     (case foreignRow params of
        None \<Rightarrow> Inl NoForeignRow
      | Some parentRow \<Rightarrow> Inr (row_get parentRow key))"

text \<open>
  The snapshot files of the output directory, by table name (\<open>None\<close>: no such file), and
  the value \<open>Math.random()\<close> returns.
\<close>

type_synonym snapshot_files = "string \<Rightarrow> Row list option"

record environment =
  snapshots :: snapshot_files
  random :: real

text \<open>
  \<open>array[Math.floor(Math.random() * array.length)]\<close>: out of range the read gives
  \<open>undefined\<close>.
\<close>

definition random_element :: "real \<Rightarrow> 'a list \<Rightarrow> 'a option" where
  "random_element r xs =
     (let i = \<lfloor>r * real (length xs)\<rfloor>
      in if 0 \<le> i \<and> i < int (length xs) then Some (xs ! nat i) else None)"

definition selectRandomForeignValue :: "string \<Rightarrow> string \<Rightarrow> environment ColumnValueGenerator" where
  "selectRandomForeignValue tableName columnName params env =
     (case snapshots env tableName of
        None \<Rightarrow>
          if is_nullable (columnSchema params) = ''NO'' then Inl (FileNotFound tableName)
          else Inr Null
      | Some fileRows \<Rightarrow>
          if length fileRows > 0 then
            (case random_element (random env) fileRows of
               None \<Rightarrow> Inl TypeError
             | Some randomRow \<Rightarrow> Inr (row_get randomRow columnName))
          else if is_nullable (columnSchema params) = ''NO'' then Inl (NoRowsFound tableName)
          else Inr Null)"

text \<open>
  The stateful generators keep a lookup from project id to the names used. One call
  takes the lookup and returns the outcome and the lookup after the call. When the
  project id is the name of a member of \<open>Object.prototype\<close>, the read
  \<open>lookup[projectId]\<close> gives that member, no list is created, and the call of its
  missing method \<open>includes\<close> throws.
\<close>

definition STATES :: "string list" where
  "STATES = [''Cancelled'', ''In Progress'', ''Backlog'', ''Done'', ''Todo'']"

definition LABELS :: "string list" where
  "LABELS = [''Bug'', ''Feature'', ''Task'', ''Story'', ''Epic'', ''Sub-task'', ''Improvement'',
             ''Documentation'', ''Chore'', ''Test'', ''Release'']"

definition stateNameGenerator ::
  "string list obj \<Rightarrow> ColumnValueGeneratorParams \<Rightarrow> real \<Rightarrow> (error + jsval) \<times> string list obj" where
  "stateNameGenerator projectGeneratedStatesLookup params r =
     (let projectId = to_key (row_get (currentRow params) ''project_id'')
      in if \<not> has_key projectGeneratedStatesLookup projectId \<and> projectId \<in> set object_prototype_members
         then (Inl TypeError, projectGeneratedStatesLookup)
         else
           (let lookup = (if has_key projectGeneratedStatesLookup projectId then projectGeneratedStatesLookup
                          else obj_set projectGeneratedStatesLookup projectId []);
                existingStates = (case obj_get lookup projectId of None \<Rightarrow> [] | Some used \<Rightarrow> used);
                availableStates = filter (\<lambda>state. state \<notin> set existingStates) STATES
            in (Inr (case random_element r availableStates of None \<Rightarrow> Undefined | Some state \<Rightarrow> Str state),
                lookup)))"

definition labelNameGenerator ::
  "string list obj \<Rightarrow> ColumnValueGeneratorParams \<Rightarrow> real \<Rightarrow> (error + jsval) \<times> string list obj" where
  "labelNameGenerator labelGeneratedNamesLookup params r =
     (let projectId = to_key (row_get (currentRow params) ''project_id'')
      in if \<not> has_key labelGeneratedNamesLookup projectId \<and> projectId \<in> set object_prototype_members
         then (Inl TypeError, labelGeneratedNamesLookup)
         else
           (let lookup = (if has_key labelGeneratedNamesLookup projectId then labelGeneratedNamesLookup
                          else obj_set labelGeneratedNamesLookup projectId []);
                existingLabels = (case obj_get lookup projectId of None \<Rightarrow> [] | Some used \<Rightarrow> used);
                availableLabels = filter (\<lambda>label. label \<notin> set existingLabels) LABELS
            in (Inr (case random_element r availableLabels of None \<Rightarrow> Undefined | Some label \<Rightarrow> Str label),
                lookup)))"

section \<open>Row generation\<close>

datatype CountPerEntry = Fixed int | Range int int

datatype RowGenerationConfig =
    Static int
  | ForeignTable string string string CountPerEntry

text \<open>
  A seed configuration. Optional members that are absent are \<open>None\<close> (or \<open>False\<close> for
  the flags).
\<close>

record 'e SeedConfig =
  tableName :: string
  skip_generate :: bool
  skip_import :: bool
  rowGeneration :: "RowGenerationConfig option"
  primaryKeys :: "string list option"
  seedColumns :: "'e ColumnGeneratorMap option"
  concurrentGeneration :: bool

text \<open>\<open>getTableData\<close> reads and parses the snapshot of a table; a missing file throws.\<close>

definition getTableData :: "snapshot_files \<Rightarrow> string \<Rightarrow> error + Row list" where
  "getTableData files name =
     (case files name of None \<Rightarrow> Inl (FileNotFound name) | Some fileRows \<Rightarrow> Inr fileRows)"

text \<open>
  \<open>acc[row[foreignColumn]] = row\<close>, one step of the \<open>reduce\<close> that builds the lookup of
  the parent rows. The accumulator starts as \<open>{}\<close>. Its state is its own properties and
  whether the object that is its prototype has a property of its own named \<open>__proto__\<close>
  (\<open>Object.prototype\<close> has the setter instead). An assignment to \<open>__proto__\<close> that meets
  the setter makes the parent row the prototype of the accumulator and adds no
  property; one that meets a property of the prototype, or of the accumulator, is an
  ordinary assignment.
\<close>

definition lookup_step :: "string \<Rightarrow> Row obj \<times> bool \<Rightarrow> Row \<Rightarrow> Row obj \<times> bool" where
  "lookup_step foreignColumn acc row =
     (let key = row_key row foreignColumn
      in if key = ''__proto__'' \<and> \<not> has_key (fst acc) key \<and> \<not> snd acc
         then (fst acc, has_key row ''__proto__'')
         else (define_own (fst acc) key row, snd acc))"

text \<open>
  \<open>foreignTableData.reduce((acc, row) => { acc[row[foreignColumn]] = row; return acc }, {})\<close>
\<close>

definition foreignRowLookup :: "string \<Rightarrow> Row list \<Rightarrow> Row obj" where
  "foreignRowLookup foreignColumn foreignTableData =
     fst (foldl (lookup_step foreignColumn) ([], False) foreignTableData)"

text \<open>
  The number of rows for one parent key: the fixed number, or
  \<open>Math.floor(Math.random() * (count.max - count.min + 1)) + count.min\<close>.
\<close>

fun entryCount :: "CountPerEntry \<Rightarrow> real \<Rightarrow> int" where
  "entryCount (Fixed n) r = n"
| "entryCount (Range cmin cmax) r = \<lfloor>r * real_of_int (cmax - cmin + 1)\<rfloor> + cmin"

text \<open>
  A generated row, with the parent key it was generated for (none in static mode) and
  the generator invocations that built it.
\<close>

record generated_row =
  for_key :: "string option"
  finished :: Row
  calls :: "generator_call list"

text \<open>
  A row that has been started settles to a generated row or to the error thrown by one
  of its generators.
\<close>

type_synonym row_promise = "error + generated_row"

fun fulfilled :: "row_promise list \<Rightarrow> generated_row list" where
  "fulfilled [] = []"
| "fulfilled (Inl e # rest) = fulfilled rest"
| "fulfilled (Inr g # rest) = g # fulfilled rest"

text \<open>
  The loop \<open>for (let i = 0; i < count; i++)\<close> around \<open>generateRowsPromise\<close>, in both
  execution modes. \<open>started\<close> holds the rows started so far. In sequential mode each
  row is awaited and pushed to \<open>rows\<close>, the generators of the next row see it in
  \<open>tableData\<close>, and a row that throws ends the generation of the table. In concurrent
  mode the promise of each row is pushed to \<open>rowPromises\<close>, \<open>rows\<close> stays empty, and the
  loop goes on whatever the row settles to. The environment of row number \<open>i\<close> of the
  table is \<open>env i\<close>.
\<close>

fun generateCount ::
  "bool \<Rightarrow> TableSchema \<Rightarrow> 'e ColumnGeneratorMap \<Rightarrow> string option \<Rightarrow> Row \<Rightarrow> Row option
     \<Rightarrow> (nat \<Rightarrow> string \<Rightarrow> 'e) \<Rightarrow> nat \<Rightarrow> row_promise list \<Rightarrow> error + row_promise list" where
  "generateCount concurrent schema cols key seed parentRow env 0 started = Inr started"
| "generateCount concurrent schema cols key seed parentRow env (Suc n) started =
     (case generateRowsPromise schema cols seed
             (if concurrent then [] else map finished (fulfilled started))
             parentRow (env (length started)) of
        (Inl e, made) \<Rightarrow>
          if concurrent
          then generateCount concurrent schema cols key seed parentRow env n (started @ [Inl e])
          else Inl e
      | (Inr row, made) \<Rightarrow>
          generateCount concurrent schema cols key seed parentRow env n
            (started @ [Inr \<lparr>for_key = key, finished = row, calls = made\<rparr>]))"

text \<open>
  The loop \<open>for (const foreignValue of uniqueForeignValues)\<close>. \<open>draw j\<close> is the random
  number drawn for the \<open>j\<close>-th parent key. Every row starts as
  \<open>{ [tableColumn]: foreignValue }\<close>.
\<close>

fun generateForKeys ::
  "bool \<Rightarrow> TableSchema \<Rightarrow> 'e ColumnGeneratorMap \<Rightarrow> string \<Rightarrow> CountPerEntry \<Rightarrow> Row obj
     \<Rightarrow> (nat \<Rightarrow> real) \<Rightarrow> (nat \<Rightarrow> string \<Rightarrow> 'e) \<Rightarrow> string list \<Rightarrow> nat \<Rightarrow> row_promise list
     \<Rightarrow> error + row_promise list" where
  "generateForKeys concurrent schema cols tableColumn countPerEntry lookup draw env [] j started = Inr started"
| "generateForKeys concurrent schema cols tableColumn countPerEntry lookup draw env (foreignValue # others) j started =
     (let count = entryCount countPerEntry (draw j)
      in case generateCount concurrent schema cols (Some foreignValue)
                [(tableColumn, Str foreignValue)] (obj_get lookup foreignValue) env (nat count) started of
           Inl e \<Rightarrow> Inl e
         | Inr started' \<Rightarrow>
             generateForKeys concurrent schema cols tableColumn countPerEntry lookup draw env others (Suc j) started')"

text \<open>
  \<open>await Promise.all(rowPromises)\<close>: the rows, if every promise is fulfilled; otherwise
  the error of the promise that is rejected first. Which one that is depends on how the
  rows interleave: \<open>rejected_first\<close> picks it among the numbers of the rejected rows.
\<close>

definition Promise_all :: "(nat list \<Rightarrow> nat) \<Rightarrow> (error + 'a) list \<Rightarrow> error + 'a list" where
  "Promise_all rejected_first promises =
     (let rejected = filter (\<lambda>i. isl (promises ! i)) [0..<length promises]
      in if rejected = [] then Inr (map projr promises)
         else if rejected_first rejected \<in> set rejected then Inl (projl (promises ! rejected_first rejected))
         else Inl (projl (promises ! hd rejected)))"

text \<open>The rows of a table, before deduplication.\<close>

definition generateAll ::
  "RowGenerationConfig \<Rightarrow> bool \<Rightarrow> TableSchema \<Rightarrow> 'e ColumnGeneratorMap \<Rightarrow> snapshot_files
     \<Rightarrow> (nat \<Rightarrow> real) \<Rightarrow> (nat \<Rightarrow> string \<Rightarrow> 'e) \<Rightarrow> (nat list \<Rightarrow> nat) \<Rightarrow> error + generated_row list" where
  "generateAll config concurrent schema cols files draw env rejected_first =
     (case (case config of
              Static count \<Rightarrow> generateCount concurrent schema cols None [] None env (nat count) []
            | ForeignTable parentTable foreignColumn tableColumn countPerEntry \<Rightarrow>
                (case getTableData files parentTable of
                   Inl e \<Rightarrow> Inl e
                 | Inr foreignTableData \<Rightarrow>
                     (let lookup = foreignRowLookup foreignColumn foreignTableData;
                          uniqueForeignValues = keys lookup
                      in generateForKeys concurrent schema cols tableColumn countPerEntry lookup draw env
                           uniqueForeignValues 0 []))) of
        Inl e \<Rightarrow> Inl e
      | Inr started \<Rightarrow> if concurrent then Promise_all rejected_first started else Inr (fulfilled started))"

text \<open>
  \<open>generateRows(seedConfig, tableSchema)\<close>: returns without doing anything for a passive
  configuration; otherwise generates the rows, removes duplicates and writes the
  snapshot. The result is the files after the call and the rows generated.
\<close>

definition generateRows ::
  "'e SeedConfig \<Rightarrow> TableSchema \<Rightarrow> snapshot_files \<Rightarrow> (nat \<Rightarrow> real) \<Rightarrow> (nat \<Rightarrow> string \<Rightarrow> 'e)
     \<Rightarrow> (nat list \<Rightarrow> nat) \<Rightarrow> error + snapshot_files \<times> generated_row list" where
  "generateRows seedConfig schema files draw env rejected_first =
     (case (skip_generate seedConfig, rowGeneration seedConfig, seedColumns seedConfig) of
        (False, Some config, Some cols) \<Rightarrow>
          (case generateAll config (concurrentGeneration seedConfig) schema cols files draw env rejected_first of
             Inl e \<Rightarrow> Inl e
           | Inr generated \<Rightarrow>
               Inr (files(tableName seedConfig :=
                      Some (map written_row
                              (deduplicatedRows (primaryKeys seedConfig) (map finished generated)))),
                    generated))
      | _ \<Rightarrow> Inr (files, []))"

text \<open>The number of rows generated for a parent key.\<close>

definition rows_generated_for :: "string \<Rightarrow> generated_row list \<Rightarrow> nat" where
  "rows_generated_for key generated = length (filter (\<lambda>g. for_key g = Some key) generated)"

section \<open>Database reset\<close>











section \<open>The dependency graph\<close>

record TableNode =
  name :: string
  dependencies :: "string list"
  dependents :: "string list"

type_synonym DependencyGraph = "TableNode obj"

subsection \<open>Cycle detection\<close>

text \<open>The two sets of \<open>detectCycle\<close>, shared by all calls of \<open>dfs\<close>.\<close>

record dfs_state =
  visiting :: "string set"
  visited :: "string set"

text \<open>
  \<open>dfs(table, path)\<close> and its loop over \<open>graph[table].dependencies\<close>. The result is the
  returned path (\<open>None\<close> for \<open>null\<close>) or the error thrown, with the sets as they are at
  that moment. Reading \<open>.dependencies\<close> of a table the graph does not have throws a
  \<open>TypeError\<close>.
\<close>

function dfs :: "DependencyGraph \<Rightarrow> string \<Rightarrow> string list \<Rightarrow> dfs_state
                   \<Rightarrow> (error + string list option) \<times> dfs_state"
  and dfs_deps :: "DependencyGraph \<Rightarrow> string list \<Rightarrow> string list \<Rightarrow> dfs_state
                   \<Rightarrow> (error + string list option) \<times> dfs_state" where
  "dfs graph table path st =
     (if table \<in> visiting st then (Inr (Some (path @ [table])), st)
      else if table \<in> visited st then (Inr None, st)
      else
        (let st1 = st\<lparr>visiting := insert table (visiting st)\<rparr>
         in case obj_get graph table of
              None \<Rightarrow> (Inl TypeError, st1)
            | Some node \<Rightarrow>
                (case dfs_deps graph (dependencies node) (path @ [table]) st1 of
                   (Inr None, st2) \<Rightarrow>
                     (Inr None, st2\<lparr>visiting := visiting st2 - {table},
                                    visited := insert table (visited st2)\<rparr>)
                 | (Inr (Some cycle), st2) \<Rightarrow> (Inr (Some cycle), st2)
                 | (Inl e, st2) \<Rightarrow> (Inl e, st2))))"
| "dfs_deps graph [] path st = (Inr None, st)"
| "dfs_deps graph (dep # deps) path st =
     (case dfs graph dep path st of
        (Inr None, st1) \<Rightarrow> dfs_deps graph deps path st1
      | (Inr (Some cycle), st1) \<Rightarrow> (Inr (Some cycle), st1)
      | (Inl e, st1) \<Rightarrow> (Inl e, st1))"
  by pat_completeness auto


text \<open>
  The recursion ends: a call of \<open>dfs\<close> that goes on adds a table of the graph to
  \<open>visiting\<close>, and the tables in one of the two sets are never fewer after a call.
\<close>

lemma dfs_grows:
  "dfs_dfs_deps_dom (Inl (graph, table, path, st)) \<Longrightarrow>
     visiting st \<union> visited st \<subseteq> visiting (snd (dfs graph table path st)) \<union> visited (snd (dfs graph table path st))"
  "dfs_dfs_deps_dom (Inr (graph, deps, path, st)) \<Longrightarrow>
     visiting st \<union> visited st \<subseteq> visiting (snd (dfs_deps graph deps path st)) \<union> visited (snd (dfs_deps graph deps path st))"
proof (induction graph table path st and graph deps path st rule: dfs_dfs_deps.pinduct)
  case (1 graph table path st)
  note dom = "1.hyps"
  show ?case
  proof (cases "table \<in> visiting st \<or> table \<in> visited st")
    case True
    then show ?thesis by (auto simp: dfs.psimps[OF dom])
  next
    case False
    let ?st1 = "st\<lparr>visiting := insert table (visiting st)\<rparr>"
    show ?thesis
    proof (cases "obj_get graph table")
      case None
      with False show ?thesis by (auto simp: dfs.psimps[OF dom])
    next
      case (Some node)
      obtain r st2 where run: "dfs_deps graph (dependencies node) (path @ [table]) ?st1 = (r, st2)"
        by (cases "dfs_deps graph (dependencies node) (path @ [table]) ?st1")
      from False Some "1.IH"[of ?st1 node] run
      have sub: "visiting ?st1 \<union> visited ?st1 \<subseteq> visiting st2 \<union> visited st2" by simp
      have "snd (dfs graph table path st) = st2
            \<or> snd (dfs graph table path st)
                = st2\<lparr>visiting := visiting st2 - {table}, visited := insert table (visited st2)\<rparr>"
        using False Some run by (auto simp: dfs.psimps[OF dom] Let_def split: sum.splits option.splits)
      with sub show ?thesis by auto
    qed
  qed
next
  case (2 graph path st)
  then show ?case by (simp add: dfs_deps.psimps)
next
  case (3 graph dep deps path st)
  note dom = "3.hyps"
  obtain r st1 where run: "dfs graph dep path st = (r, st1)" by (cases "dfs graph dep path st")
  from "3.IH"(1) run have sub: "visiting st \<union> visited st \<subseteq> visiting st1 \<union> visited st1" by simp
  show ?case
  proof (cases "r = Inr None")
    case True
    with "3.IH"(2)[of r st1 None] run
    have "visiting st1 \<union> visited st1
            \<subseteq> visiting (snd (dfs_deps graph deps path st1)) \<union> visited (snd (dfs_deps graph deps path st1))"
      by simp
    moreover from True run have "dfs_deps graph (dep # deps) path st = dfs_deps graph deps path st1"
      by (simp add: dfs_deps.psimps(2)[OF dom])
    ultimately show ?thesis using sub by auto
  next
    case False
    with run have "snd (dfs_deps graph (dep # deps) path st) = st1"
      by (auto simp: dfs_deps.psimps(2)[OF dom] split: sum.splits option.splits)
    with sub show ?thesis by simp
  qed
qed

termination dfs
proof (relation "inv_image (less_than <*lex*> less_than)
    (\<lambda>x. case x of
        Inl (graph, table, path, st) \<Rightarrow> (card (set (keys graph) - (visiting st \<union> visited st)), 0)
      | Inr (graph, deps, path, st) \<Rightarrow> (card (set (keys graph) - (visiting st \<union> visited st)), Suc (length deps)))")
  show "wf (inv_image (less_than <*lex*> less_than)
    (\<lambda>x. case x of
        Inl (graph, table, path, st) \<Rightarrow> (card (set (keys graph) - (visiting st \<union> visited st)), 0::nat)
      | Inr (graph, deps, path, st) \<Rightarrow> (card (set (keys graph) - (visiting st \<union> visited st)), Suc (length deps))))"
    by (intro wf_inv_image wf_lex_prod wf_less_than)
next
  fix graph :: DependencyGraph and table path st x x2
  assume a: "table \<notin> visiting st" "table \<notin> visited st"
    "x = st\<lparr>visiting := insert table (visiting st)\<rparr>" "obj_get graph table = Some x2"
  from a(4) have "table \<in> set (keys graph)"
    using has_key_obj_get[of graph table] by (simp add: has_key_def)
  with a(1,2) have "card (set (keys graph) - (insert table (visiting st) \<union> visited st))
        < card (set (keys graph) - (visiting st \<union> visited st))"
    by (intro psubset_card_mono) auto
  with a(3) show "(Inr (graph, dependencies x2, path @ [table], x), Inl (graph, table, path, st))
    \<in> inv_image (less_than <*lex*> less_than)
    (\<lambda>x. case x of
        Inl (graph, table, path, st) \<Rightarrow> (card (set (keys graph) - (visiting st \<union> visited st)), 0)
      | Inr (graph, deps, path, st) \<Rightarrow> (card (set (keys graph) - (visiting st \<union> visited st)), Suc (length deps)))"
    by simp
next
  fix graph :: DependencyGraph and dep deps path st
  show "(Inl (graph, dep, path, st), Inr (graph, dep # deps, path, st))
    \<in> inv_image (less_than <*lex*> less_than)
    (\<lambda>x. case x of
        Inl (graph, table, path, st) \<Rightarrow> (card (set (keys graph) - (visiting st \<union> visited st)), 0)
      | Inr (graph, deps, path, st) \<Rightarrow> (card (set (keys graph) - (visiting st \<union> visited st)), Suc (length deps)))"
    by simp
next
  fix graph :: DependencyGraph and dep deps path st x y b
  assume a: "(x, y) = dfs graph dep path st" "x = Inr b" "b = None"
    and dom: "dfs_dfs_deps_dom (Inl (graph, dep, path, st))"
  from dfs_grows(1)[OF dom] a(1)
  have "visiting st \<union> visited st \<subseteq> visiting y \<union> visited y" by (metis snd_conv)
  then have "card (set (keys graph) - (visiting y \<union> visited y))
        \<le> card (set (keys graph) - (visiting st \<union> visited st))"
    by (intro card_mono) auto
  then show "(Inr (graph, deps, path, y), Inr (graph, dep # deps, path, st))
    \<in> inv_image (less_than <*lex*> less_than)
    (\<lambda>x. case x of
        Inl (graph, table, path, st) \<Rightarrow> (card (set (keys graph) - (visiting st \<union> visited st)), 0)
      | Inr (graph, deps, path, st) \<Rightarrow> (card (set (keys graph) - (visiting st \<union> visited st)), Suc (length deps)))"
    by auto
qed

declare dfs.simps [simp del]

text \<open>
  \<open>detectCycle(graph)\<close>: the loop over \<open>Object.keys(graph)\<close>, each table a root of the
  traversal with an empty path.
\<close>

fun detectCycle_roots :: "DependencyGraph \<Rightarrow> string list \<Rightarrow> dfs_state \<Rightarrow> error + string list option" where
  "detectCycle_roots graph [] st = Inr None"
| "detectCycle_roots graph (table # tables) st =
     (case dfs graph table [] st of
        (Inr None, st1) \<Rightarrow> detectCycle_roots graph tables st1
      | (Inr (Some cycle), st1) \<Rightarrow> Inr (Some cycle)
      | (Inl e, st1) \<Rightarrow> Inl e)"

definition detectCycle :: "DependencyGraph \<Rightarrow> error + string list option" where
  "detectCycle graph = detectCycle_roots graph (keys graph) \<lparr>visiting = {}, visited = {}\<rparr>"

subsection \<open>Topological order\<close>

text \<open>
  \<open>inDegree[tableName] = graph[tableName].dependencies.length\<close> for every table of the
  graph, starting from \<open>{}\<close>. A table named \<open>__proto__\<close> gets no entry: the number
  assigned is dropped by the setter of \<open>Object.prototype\<close>.
\<close>

definition inDegree_of :: "DependencyGraph \<Rightarrow> int obj" where
  "inDegree_of graph =
     foldl (\<lambda>inDegree tableName.
              obj_set inDegree tableName
                (case obj_get graph tableName of
                   None \<Rightarrow> 0
                 | Some node \<Rightarrow> int (length (dependencies node))))
       [] (keys graph)"

text \<open>
  \<open>inDegree[dependent]--\<close>. For a name that \<open>inDegree\<close> has no entry for, what is read
  is not a number and the decrement gives \<open>NaN\<close>, which is never equal to 0 and stays
  \<open>NaN\<close> (for \<open>__proto__\<close> it is not even stored); the model leaves such an entry
  absent.
\<close>

fun decrement :: "string \<Rightarrow> int obj \<Rightarrow> int obj" where
  "decrement dependentTable [] = []"
| "decrement dependentTable ((k, v) # rest) =
     (if k = dependentTable then (k, v - 1) # rest else (k, v) # decrement dependentTable rest)"

text \<open>The loop \<open>for (const dependent of graph[table].dependents)\<close>.\<close>

fun visit_dependents :: "string list \<Rightarrow> int obj \<Rightarrow> string list \<Rightarrow> int obj \<times> string list" where
  "visit_dependents [] inDegree queue = (inDegree, queue)"
| "visit_dependents (dependentTable # rest) inDegree queue =
     (let inDegree1 = decrement dependentTable inDegree
      in visit_dependents rest inDegree1
           (if obj_get inDegree1 dependentTable = Some 0 then queue @ [dependentTable] else queue))"

text \<open>The number of entries of \<open>inDegree\<close> that are positive.\<close>

definition positive_entries :: "int obj \<Rightarrow> nat" where
  "positive_entries inDegree = length (filter (\<lambda>(k, v). 0 < v) inDegree)"

lemma decrement_measure:
  "positive_entries (decrement d inDegree) + (if obj_get (decrement d inDegree) d = Some 0 then 1 else 0)
     = positive_entries inDegree"
  by (induction inDegree) (auto simp: positive_entries_def obj_get_def)

lemma visit_dependents_measure:
  "visit_dependents ds inDegree queue = (inDegree2, queue2) \<Longrightarrow>
   length queue2 + positive_entries inDegree2 = length queue + positive_entries inDegree"
proof (induction ds arbitrary: inDegree queue)
  case Nil
  then show ?case by simp
next
  case (Cons d ds)
  from Cons.prems Cons.IH[of "decrement d inDegree"
      "if obj_get (decrement d inDegree) d = Some 0 then queue @ [d] else queue"]
    decrement_measure[of d inDegree]
  show ?case by (auto simp: Let_def split: if_splits)
qed

text \<open>
  The loop \<open>while (queue.length > 0)\<close>. \<open>if (table)\<close> passes over a table whose name is
  the empty string. Each round takes one table off the queue, and a table is added to
  the queue only when its entry of \<open>inDegree\<close> falls from 1 to 0, so the loop ends.
\<close>

function kahn_loop :: "DependencyGraph \<Rightarrow> int obj \<Rightarrow> string list \<Rightarrow> string list \<Rightarrow> error + string list" where
  "kahn_loop graph inDegree [] result = Inr result"
| "kahn_loop graph inDegree (table # queue) result =
     (if table \<noteq> [] then
        (case obj_get graph table of
           None \<Rightarrow> Inl TypeError
         | Some node \<Rightarrow>
             (case visit_dependents (dependents node) inDegree queue of
                (inDegree1, queue1) \<Rightarrow> kahn_loop graph inDegree1 queue1 (result @ [table])))
      else kahn_loop graph inDegree queue result)"
  by pat_completeness auto
termination
proof (relation "measure (\<lambda>(graph, inDegree, queue, result). length queue + positive_entries inDegree)")
  show "wf (measure (\<lambda>(graph, inDegree, queue, result). length queue + positive_entries inDegree))"
    by simp
next
  fix graph :: DependencyGraph and inDegree table queue result x2 x y
  assume "(x, y) = visit_dependents (dependents x2) inDegree queue"
  from visit_dependents_measure[OF this[symmetric]]
  show "((graph, x, y, result @ [table]), graph, inDegree, table # queue, result)
       \<in> measure (\<lambda>(graph, inDegree, queue, result). length queue + positive_entries inDegree)"
    by simp
next
  fix graph :: DependencyGraph and inDegree table queue result
  show "((graph, inDegree, queue, result), graph, inDegree, table # queue, result)
       \<in> measure (\<lambda>(graph, inDegree, queue, result). length queue + positive_entries inDegree)"
    by simp
qed

text \<open>
  \<open>getTableOrderForOperations(graph)\<close>: a cycle found is only logged; an error thrown by
  \<open>detectCycle\<close> propagates.
\<close>

definition getTableOrderForOperations :: "DependencyGraph \<Rightarrow> error + string list" where
  "getTableOrderForOperations graph =
     (case detectCycle graph of
        Inl e \<Rightarrow> Inl e
      | Inr cycle \<Rightarrow>
          (let inDegree = inDegree_of graph;
               queue = filter (\<lambda>table. obj_get inDegree table = Some 0) (keys graph)
           in kahn_loop graph inDegree queue []))"

text \<open>The edges of the graph: \<open>a\<close> depends on \<open>b\<close>; \<open>a\<close> is a dependent of \<open>b\<close>.\<close>

definition depends_on :: "DependencyGraph \<Rightarrow> string \<Rightarrow> string \<Rightarrow> bool" where
  "depends_on graph a b =
     (case obj_get graph a of None \<Rightarrow> False | Some node \<Rightarrow> b \<in> set (dependencies node))"

definition dependent_of :: "DependencyGraph \<Rightarrow> string \<Rightarrow> string \<Rightarrow> bool" where
  "dependent_of graph a b =
     (case obj_get graph b of None \<Rightarrow> False | Some node \<Rightarrow> a \<in> set (dependents node))"

definition edges :: "DependencyGraph \<Rightarrow> (string \<times> string) set" where
  "edges graph = {(a, b). depends_on graph a b}"

text \<open>Every table named as a dependency is a table of the graph.\<close>

definition closed_graph :: "DependencyGraph \<Rightarrow> bool" where
  "closed_graph graph = (\<forall>a b. depends_on graph a b \<longrightarrow> has_key graph b)"

text \<open>
  \<open>B\<close> is in \<open>A\<close>'s dependencies exactly when \<open>A\<close> is in \<open>B\<close>'s dependents, for all names
  (so both lists name only tables of the graph).
\<close>

definition consistent_graph :: "DependencyGraph \<Rightarrow> bool" where
  "consistent_graph graph = (\<forall>a b. depends_on graph a b \<longleftrightarrow> dependent_of graph a b)"


section \<open>Example data\<close>

definition example_column :: "string \<Rightarrow> string \<Rightarrow> Column" where
  "example_column cname nullable =
     \<lparr>column_name = cname, data_type = ''text'', is_nullable = nullable,
      column_default = None, character_maximum_length = None\<rparr>"

definition example_schema :: TableSchema where
  "example_schema =
     \<lparr>columns = [example_column ''id'' ''NO'', example_column ''name'' ''NO'',
                 example_column ''project_id'' ''NO'', example_column ''note'' ''YES''],
      foreignKeys = []\<rparr>"

definition example_params :: "Row \<Rightarrow> Row option \<Rightarrow> ColumnValueGeneratorParams" where
  "example_params row parentRow =
     \<lparr>currentRow = row, columnSchema = example_column ''name'' ''NO'', tableSchema = example_schema,
      tableData = [], foreignRow = parentRow\<rparr>"

definition example_files :: snapshot_files where
  "example_files table =
     (if table = ''users'' then Some [[(''id'', Str ''u1'')], [(''id'', Str ''u2'')]]
      else if table = ''projects'' then Some [[(''id'', Str ''p1'')], [(''id'', Str ''p2'')]]
      else None)"

text \<open>An environment that carries nothing, and a random source that always returns 0.\<close>

definition quiet :: "string \<Rightarrow> unit" where
  "quiet c = ()"

definition quiet_rows :: "nat \<Rightarrow> string \<Rightarrow> unit" where
  "quiet_rows i c = ()"

definition zero_draw :: "nat \<Rightarrow> real" where
  "zero_draw j = 0"

text \<open>Of the rows rejected, the one started first is rejected first.\<close>

definition lowest_first :: "nat list \<Rightarrow> nat" where
  "lowest_first rejected = hd rejected"

definition example_generators :: "unit ColumnGeneratorMap" where
  "example_generators =
     [(''id'', returnConstValue (Str ''s1'')),
      (''unknown'', returnConstValue Null),
      (''name'', currentRowValue ''id'')]"

definition example_run :: "(error + Row) \<times> generator_call list" where
  "example_run = generateRowsPromise example_schema example_generators [] [] None quiet"

text \<open>
  A fan-out configuration whose child column \<open>project\<close> is not a column of the table
  (the schema has \<open>project_id\<close>), with a generator declared for \<open>project\<close>.
\<close>

definition misnamed_column_config :: "unit SeedConfig" where
  "misnamed_column_config =
     \<lparr>tableName = ''states'', skip_generate = False, skip_import = False,
      rowGeneration = Some (ForeignTable ''projects'' ''id'' ''project'' (Fixed 1)),
      primaryKeys = None,
      seedColumns = Some [(''name'', returnConstValue (Str ''Todo'')),
                          (''project'', returnConstValue (Str ''zzz''))],
      concurrentGeneration = False\<rparr>"





text \<open>A fan-out from two workspaces to their projects.\<close>

definition workspace_files :: snapshot_files where
  "workspace_files table =
     (if table = ''workspaces''
      then Some [[(''id'', Str ''w1''), (''name'', Str ''Acme'')],
                 [(''id'', Str ''w2''), (''name'', Str ''Beta'')]]
      else None)"

definition projects_schema :: TableSchema where
  "projects_schema =
     \<lparr>columns = [example_column ''workspace_id'' ''NO'', example_column ''name'' ''NO''],
      foreignKeys = []\<rparr>"

definition half_draw :: "nat \<Rightarrow> real" where
  "half_draw j = 1 / 2"

definition first_row_env :: "nat \<Rightarrow> string \<Rightarrow> environment" where
  "first_row_env i c = \<lparr>snapshots = workspace_files, random = 0\<rparr>"

definition projects_config :: "environment SeedConfig" where
  "projects_config =
     \<lparr>tableName = ''projects'', skip_generate = False, skip_import = False,
      rowGeneration = Some (ForeignTable ''workspaces'' ''id'' ''workspace_id'' (Range 1 2)),
      primaryKeys = None,
      seedColumns = Some [(''name'', foreignRowValue ''name'')],
      concurrentGeneration = True\<rparr>"

definition projects_run :: "error + snapshot_files \<times> generated_row list" where
  "projects_run =
     generateRows projects_config projects_schema workspace_files half_draw first_row_env lowest_first"

text \<open>
  The same fan-out with a generator declared for the child column, as the configuration
  of \<open>projects\<close> has it, and one row per workspace.
\<close>

definition projects_config_with_key_generator :: "environment SeedConfig" where
  "projects_config_with_key_generator =
     \<lparr>tableName = ''projects'', skip_generate = False, skip_import = False,
      rowGeneration = Some (ForeignTable ''workspaces'' ''id'' ''workspace_id'' (Fixed 1)),
      primaryKeys = Some [''name'', ''workspace_id''],
      seedColumns = Some [(''workspace_id'', selectRandomForeignValue ''workspaces'' ''id''),
                          (''name'', foreignRowValue ''name'')],
      concurrentGeneration = True\<rparr>"

definition projects_run_with_key_generator :: "error + snapshot_files \<times> generated_row list" where
  "projects_run_with_key_generator =
     generateRows projects_config_with_key_generator projects_schema workspace_files zero_draw first_row_env
       lowest_first"













text \<open>Dependency graphs.\<close>

definition table_node :: "string \<Rightarrow> string list \<Rightarrow> string list \<Rightarrow> string \<times> TableNode" where
  "table_node table deps depts = (table, \<lparr>name = table, dependencies = deps, dependents = depts\<rparr>)"

text \<open>\<open>states\<close> depends on \<open>projects\<close>, which depends on \<open>workspaces\<close>.\<close>

definition chain_graph :: DependencyGraph where
  "chain_graph =
     [table_node ''states'' [''projects''] [],
      table_node ''projects'' [''workspaces''] [''states''],
      table_node ''workspaces'' [] [''projects'']]"

text \<open>\<open>a\<close> depends on \<open>b\<close>, and \<open>b\<close> and \<open>c\<close> depend on each other.\<close>

definition lead_in_graph :: DependencyGraph where
  "lead_in_graph =
     [table_node ''a'' [''b''] [],
      table_node ''b'' [''c''] [''a'', ''c''],
      table_node ''c'' [''b''] [''b'']]"

text \<open>A single table whose name is the empty string.\<close>

definition unnamed_table_graph :: DependencyGraph where
  "unnamed_table_graph = [table_node [] [] []]"

text \<open>\<open>a\<close> lists its dependency \<open>b\<close> twice.\<close>

definition repeated_dependency_graph :: DependencyGraph where
  "repeated_dependency_graph =
     [table_node ''a'' [''b'', ''b''] [],
      table_node ''b'' [] [''a'']]"



section \<open>Properties of \<open>generateRowsPromise\<close>\<close>

lemma in_schema_iff: "in_schema schema c \<longleftrightarrow> c \<in> column_name ` set (columns schema)"
  by (auto simp: in_schema_def find_None_iff)

lemma obj_get_assign_other: "c \<notin> fst ` set as \<Longrightarrow> obj_get (assign row as) c = obj_get row c"
  by (induction as arbitrary: row) (auto simp: obj_get_obj_set_other)

lemma obj_get_assign_mem:
  "distinct (map fst as) \<Longrightarrow> (c, v) \<in> set as \<Longrightarrow> c \<noteq> ''__proto__'' \<or> has_key row c
   \<Longrightarrow> obj_get (assign row as) c = Some v"
proof (induction as arbitrary: row)
  case Nil
  then show ?case by simp
next
  case (Cons a as)
  obtain c' v' where a: "a = (c', v')" by (cases a)
  show ?case
  proof (cases "(c, v) = (c', v')")
    case True
    with Cons.prems a have "c \<notin> fst ` set as" by auto
    with True a Cons.prems(3) show ?thesis by (simp add: obj_get_assign_other obj_get_obj_set_same)
  next
    case False
    with Cons.prems a have in_rest: "(c, v) \<in> set as" and d: "distinct (map fst as)" by auto
    from Cons.prems(3) have "c \<noteq> ''__proto__'' \<or> has_key (obj_set row c' v') c"
      using has_key_obj_set_mono[of row c c' v'] by auto
    from Cons.IH[OF d in_rest this] a show ?thesis by simp
  qed
qed

lemma assigned_succeeded:
  "\<forall>call\<in>set cs. \<not> isl (call_result call)
   \<Longrightarrow> assigned cs = map (\<lambda>call. (call_column call, projr (call_result call))) cs"
  by (induction cs) (auto split: sum.splits)


lemma assigned_columns: "fst ` set (assigned cs) \<subseteq> call_column ` set cs"
  by (induction cs) (auto split: sum.splits)

lemma assigned_all_succeeded:
  "\<forall>call\<in>set cs. \<not> isl (call_result call) \<Longrightarrow> map fst (assigned cs) = map call_column cs"
  by (induction cs) (auto split: sum.splits)

lemma skip_unscheduled:
  "\<not> in_schema schema c \<Longrightarrow>
   generateRowsPromise schema (filter (\<lambda>(c', g). c' \<noteq> c) cols) row rows parentRow env
     = generateRowsPromise schema cols row rows parentRow env"
  by (induction cols arbitrary: row) (auto simp: in_schema_def Let_def split: option.splits sum.splits prod.splits)


lemma calls_characterised:
  assumes "generateRowsPromise ts cols row rows frow env = (res, made)"
  shows "length made \<le> length (scheduled ts cols)
    \<and> (\<forall>k<length made.
          call_column (made ! k) = fst (scheduled ts cols ! k)
        \<and> call_result (made ! k) = snd (scheduled ts cols ! k) (call_params (made ! k)) (env (call_column (made ! k)))
        \<and> currentRow (call_params (made ! k)) = assign row (assigned (take k made))
        \<and> tableData (call_params (made ! k)) = rows
        \<and> foreignRow (call_params (made ! k)) = frow
        \<and> tableSchema (call_params (made ! k)) = ts
        \<and> find (\<lambda>column. column_name column = call_column (made ! k)) (columns ts) = Some (columnSchema (call_params (made ! k)))
        \<and> (Suc k < length made \<longrightarrow> \<not> isl (call_result (made ! k))))
    \<and> (case res of
          Inr finished_row \<Rightarrow> length made = length (scheduled ts cols) \<and> finished_row = assign row (assigned made)
              \<and> (\<forall>call\<in>set made. \<not> isl (call_result call))
        | Inl e \<Rightarrow> made \<noteq> [] \<and> call_result (last made) = Inl e)"
  using assms
proof (induction cols arbitrary: row res made)
  case Nil
  then show ?case by (auto simp: scheduled_def)
next
  case (Cons a cols)
  obtain c g where a: "a = (c, g)" by (cases a)
  show ?case
  proof (cases "find (\<lambda>column. column_name column = c) (columns ts)")
    case None
    then have "\<not> in_schema ts c" by (simp add: in_schema_def)
    then have s: "scheduled ts (a # cols) = scheduled ts cols" by (simp add: scheduled_def a)
    from Cons.prems None a have "generateRowsPromise ts cols row rows frow env = (res, made)" by simp
    from Cons.IH[OF this] show ?thesis unfolding s .
  next
    case (Some cs)
    then have "in_schema ts c" by (simp add: in_schema_def)
    then have s: "scheduled ts (a # cols) = (c, g) # scheduled ts cols" by (simp add: scheduled_def a)
    let ?params = "\<lparr>currentRow = row, columnSchema = cs, tableSchema = ts, tableData = rows, foreignRow = frow\<rparr>"
    let ?call = "\<lparr>call_column = c, call_params = ?params, call_result = g ?params (env c)\<rparr>"
    show ?thesis
    proof (cases "g ?params (env c)")
      case (Inl e)
      with Cons.prems Some a have "res = Inl e" "made = [?call]" by (auto simp: Let_def)
      with Inl Some show ?thesis unfolding s by simp
    next
      case (Inr v)
      obtain res' made' where r: "generateRowsPromise ts cols (obj_set row c v) rows frow env = (res', made')"
        by (cases "generateRowsPromise ts cols (obj_set row c v) rows frow env")
      with Cons.prems Some a Inr have rc: "res = res'" "made = ?call # made'" by (auto simp: Let_def)
      note IH = Cons.IH[OF r]
      have len: "length made \<le> length (scheduled ts (a # cols))" using IH rc s by simp
      have each: "\<forall>k<length made.
          call_column (made ! k) = fst (scheduled ts (a # cols) ! k)
        \<and> call_result (made ! k) = snd (scheduled ts (a # cols) ! k) (call_params (made ! k)) (env (call_column (made ! k)))
        \<and> currentRow (call_params (made ! k)) = assign row (assigned (take k made))
        \<and> tableData (call_params (made ! k)) = rows
        \<and> foreignRow (call_params (made ! k)) = frow
        \<and> tableSchema (call_params (made ! k)) = ts
        \<and> find (\<lambda>column. column_name column = call_column (made ! k)) (columns ts) = Some (columnSchema (call_params (made ! k)))
        \<and> (Suc k < length made \<longrightarrow> \<not> isl (call_result (made ! k)))"
      proof (intro allI impI)
        fix k assume k: "k < length made"
        show "call_column (made ! k) = fst (scheduled ts (a # cols) ! k)
        \<and> call_result (made ! k) = snd (scheduled ts (a # cols) ! k) (call_params (made ! k)) (env (call_column (made ! k)))
        \<and> currentRow (call_params (made ! k)) = assign row (assigned (take k made))
        \<and> tableData (call_params (made ! k)) = rows
        \<and> foreignRow (call_params (made ! k)) = frow
        \<and> tableSchema (call_params (made ! k)) = ts
        \<and> find (\<lambda>column. column_name column = call_column (made ! k)) (columns ts) = Some (columnSchema (call_params (made ! k)))
        \<and> (Suc k < length made \<longrightarrow> \<not> isl (call_result (made ! k)))"
        proof (cases k)
          case 0
          then show ?thesis unfolding s rc using Inr Some by simp
        next
          case (Suc k')
          with k rc have "k' < length made'" by simp
          with IH have "call_column (made' ! k') = fst (scheduled ts cols ! k')
        \<and> call_result (made' ! k') = snd (scheduled ts cols ! k') (call_params (made' ! k')) (env (call_column (made' ! k')))
        \<and> currentRow (call_params (made' ! k')) = assign (obj_set row c v) (assigned (take k' made'))
        \<and> tableData (call_params (made' ! k')) = rows
        \<and> foreignRow (call_params (made' ! k')) = frow
        \<and> tableSchema (call_params (made' ! k')) = ts
        \<and> find (\<lambda>column. column_name column = call_column (made' ! k')) (columns ts) = Some (columnSchema (call_params (made' ! k')))
        \<and> (Suc k' < length made' \<longrightarrow> \<not> isl (call_result (made' ! k')))" by blast
          then show ?thesis unfolding s rc Suc using Inr by auto
        qed
      qed
      have fin: "(case res of
          Inr finished_row \<Rightarrow> length made = length (scheduled ts (a # cols)) \<and> finished_row = assign row (assigned made)
              \<and> (\<forall>call\<in>set made. \<not> isl (call_result call))
        | Inl e \<Rightarrow> made \<noteq> [] \<and> call_result (last made) = Inl e)"
        using IH unfolding s rc using Inr by (auto split: sum.splits)
      from len each fin show ?thesis by blast
    qed
  qed
qed


section \<open>Properties of the reset\<close>






section \<open>Properties of the fan-out loops\<close>

text \<open>
  The lookup of the parent rows: its keys are keys of parent rows, every key of a parent
  row other than \<open>__proto__\<close> is among them, and each key leads to the last parent row
  that has it.
\<close>

lemma fst_lookup_step:
  "fst (lookup_step fc acc r)
     = (if row_key r fc = ''__proto__'' \<and> \<not> has_key (fst acc) ''__proto__'' \<and> \<not> snd acc then fst acc
        else define_own (fst acc) (row_key r fc) r)"
  by (auto simp: lookup_step_def Let_def)

lemma foreignRowLookup_snoc:
  "foreignRowLookup fc (rows @ [r])
     = (if row_key r fc = ''__proto__'' \<and> \<not> has_key (foreignRowLookup fc rows) ''__proto__''
           \<and> \<not> snd (foldl (lookup_step fc) ([], False) rows)
        then foreignRowLookup fc rows
        else define_own (foreignRowLookup fc rows) (row_key r fc) r)"
  by (simp add: foreignRowLookup_def fst_lookup_step)

lemma foreignRowLookup_Nil: "foreignRowLookup fc [] = []"
  by (simp add: foreignRowLookup_def)


lemma keys_foreignRowLookup_subset:
  "set (keys (foreignRowLookup fc rows)) \<subseteq> (\<lambda>r. row_key r fc) ` set rows"
proof (induction rows rule: rev_induct)
  case Nil
  then show ?case by (simp add: foreignRowLookup_Nil keys_def)
next
  case (snoc r rows)
  then show ?case by (auto simp: foreignRowLookup_snoc keys_define_own)
qed


lemma obj_get_foreignRowLookup:
  "obj_get (foreignRowLookup fc rows) fv = Some parent \<Longrightarrow> find (\<lambda>r. row_key r fc = fv) (rev rows) = Some parent"
proof (induction rows arbitrary: parent rule: rev_induct)
  case Nil
  then show ?case by (simp add: foreignRowLookup_Nil obj_get_def)
next
  case (snoc r rows)
  show ?case
  proof (cases "row_key r fc = ''__proto__'' \<and> \<not> has_key (foreignRowLookup fc rows) ''__proto__''
                  \<and> \<not> snd (foldl (lookup_step fc) ([], False) rows)")
    case True
    then have "obj_get (foreignRowLookup fc rows) (row_key r fc) = None" by (simp add: has_key_obj_get)
    with snoc True show ?thesis by (auto simp: foreignRowLookup_snoc)
  next
    case False
    then have "foreignRowLookup fc (rows @ [r]) = define_own (foreignRowLookup fc rows) (row_key r fc) r"
      by (auto simp: foreignRowLookup_snoc)
    with snoc show ?thesis by (auto simp: obj_get_define_own)
  qed
qed


lemma fulfilled_append: "fulfilled (xs @ ys) = fulfilled xs @ fulfilled ys"
  by (induction xs rule: fulfilled.induct) simp_all

lemma set_fulfilled: "set (fulfilled ps) = {g. Inr g \<in> set ps}"
  by (induction ps rule: fulfilled.induct) auto

lemma fulfilled_all: "\<forall>p\<in>set ps. \<not> isl p \<Longrightarrow> fulfilled ps = map projr ps"
  by (induction ps rule: fulfilled.induct) simp_all

lemma Promise_all_fulfilled:
  assumes "Promise_all rejected_first promises = Inr rows"
  shows "(\<forall>p\<in>set promises. \<not> isl p) \<and> rows = fulfilled promises"
proof -
  from assms have none: "filter (\<lambda>i. isl (promises ! i)) [0..<length promises] = []"
    and rows: "rows = map projr promises"
    by (auto simp: Promise_all_def Let_def split: if_splits)
  have all: "\<forall>p\<in>set promises. \<not> isl p"
  proof
    fix p assume "p \<in> set promises"
    then obtain i where "i < length promises" "p = promises ! i" by (auto simp: in_set_conv_nth)
    with none show "\<not> isl p" by (auto simp: filter_empty_conv)
  qed
  with rows show ?thesis by (simp add: fulfilled_all)
qed

text \<open>What is known of a generated row: how it was built.\<close>

definition built_by ::
  "TableSchema \<Rightarrow> 'e ColumnGeneratorMap \<Rightarrow> string option \<Rightarrow> Row \<Rightarrow> Row option \<Rightarrow> (nat \<Rightarrow> string \<Rightarrow> 'e)
     \<Rightarrow> generated_row \<Rightarrow> bool" where
  "built_by schema cols key seed parentRow env g =
     (for_key g = key \<and>
      (\<exists>rows i. generateRowsPromise schema cols seed rows parentRow (env i) = (Inr (finished g), calls g)))"

lemma generateCount_appends:
  assumes "generateCount conc schema cols key seed parentRow env n started = Inr out"
  shows "\<exists>new. out = started @ new \<and> length new = n
           \<and> (\<forall>g\<in>set (fulfilled new). built_by schema cols key seed parentRow env g)
           \<and> (\<not> conc \<longrightarrow> (\<forall>p\<in>set new. \<not> isl p))"
  using assms
proof (induction n arbitrary: started)
  case 0
  then show ?case by simp
next
  case (Suc n)
  let ?run = "generateRowsPromise schema cols seed (if conc then [] else map finished (fulfilled started))
                parentRow (env (length started))"
  obtain res made where run: "?run = (res, made)" by (cases ?run)
  show ?case
  proof (cases res)
    case (Inl e)
    with Suc.prems run have conc: conc by (auto split: if_splits)
    with Suc.prems run Inl
    have "generateCount conc schema cols key seed parentRow env n (started @ [Inl e]) = Inr out" by simp
    from Suc.IH[OF this] obtain new where new: "out = (started @ [Inl e]) @ new" "length new = n"
      "\<forall>g\<in>set (fulfilled new). built_by schema cols key seed parentRow env g" by blast
    with conc show ?thesis by (intro exI[of _ "Inl e # new"]) simp
  next
    case (Inr row)
    let ?g = "\<lparr>for_key = key, finished = row, calls = made\<rparr>"
    from Suc.prems run Inr
    have "generateCount conc schema cols key seed parentRow env n (started @ [Inr ?g]) = Inr out" by simp
    from Suc.IH[OF this] obtain new where new: "out = (started @ [Inr ?g]) @ new" "length new = n"
      "\<forall>g\<in>set (fulfilled new). built_by schema cols key seed parentRow env g"
      "\<not> conc \<longrightarrow> (\<forall>p\<in>set new. \<not> isl p)" by blast
    have "built_by schema cols key seed parentRow env ?g"
      unfolding built_by_def using run Inr by auto
    with new show ?thesis by (intro exI[of _ "Inr ?g # new"]) auto
  qed
qed

lemma generateForKeys_appends:
  assumes "generateForKeys conc schema cols tableColumn cpe lookup draw env fvs j started = Inr out"
  shows "\<exists>new. out = started @ new
           \<and> (\<forall>g\<in>set (fulfilled new). \<exists>fv\<in>set fvs.
                 built_by schema cols (Some fv) [(tableColumn, Str fv)] (obj_get lookup fv) env g)
           \<and> (\<not> conc \<longrightarrow> (\<forall>p\<in>set new. \<not> isl p))
           \<and> (distinct fvs \<longrightarrow> (\<forall>p\<in>set new. \<not> isl p) \<longrightarrow> (\<forall>k<length fvs.
                 rows_generated_for (fvs ! k) (fulfilled new) = nat (entryCount cpe (draw (j + k)))))"
  using assms
proof (induction fvs arbitrary: j started)
  case Nil
  then show ?case by simp
next
  case (Cons fv fvs)
  let ?n = "nat (entryCount cpe (draw j))"
  let ?inner = "generateCount conc schema cols (Some fv) [(tableColumn, Str fv)] (obj_get lookup fv) env ?n started"
  from Cons.prems obtain mid where mid: "?inner = Inr mid"
    by (cases ?inner) (auto simp: Let_def)
  with Cons.prems have rest: "generateForKeys conc schema cols tableColumn cpe lookup draw env fvs (Suc j) mid = Inr out"
    by (simp add: Let_def)
  from generateCount_appends[OF mid] obtain block where block: "mid = started @ block" "length block = ?n"
    "\<forall>g\<in>set (fulfilled block). built_by schema cols (Some fv) [(tableColumn, Str fv)] (obj_get lookup fv) env g"
    "\<not> conc \<longrightarrow> (\<forall>p\<in>set block. \<not> isl p)"
    by blast
  from Cons.IH[OF rest] obtain new where new: "out = mid @ new"
    "\<forall>g\<in>set (fulfilled new). \<exists>fv\<in>set fvs. built_by schema cols (Some fv) [(tableColumn, Str fv)] (obj_get lookup fv) env g"
    "\<not> conc \<longrightarrow> (\<forall>p\<in>set new. \<not> isl p)"
    "distinct fvs \<longrightarrow> (\<forall>p\<in>set new. \<not> isl p) \<longrightarrow>
       (\<forall>k<length fvs. rows_generated_for (fvs ! k) (fulfilled new) = nat (entryCount cpe (draw (Suc j + k))))"
    by blast
  have keys_block: "\<forall>g\<in>set (fulfilled block). for_key g = Some fv" using block(3) by (simp add: built_by_def)
  have keys_new: "\<forall>g\<in>set (fulfilled new). \<exists>fv'\<in>set fvs. for_key g = Some fv'"
    using new(2) by (auto simp: built_by_def)
  have counts: "\<forall>k<length (fv # fvs).
      rows_generated_for ((fv # fvs) ! k) (fulfilled (block @ new)) = nat (entryCount cpe (draw (j + k)))"
    if d: "distinct (fv # fvs)" and ok: "\<forall>p\<in>set (block @ new). \<not> isl p"
  proof (intro allI impI)
    fix k assume k: "k < length (fv # fvs)"
    from ok have okb: "\<forall>p\<in>set block. \<not> isl p" and okn: "\<forall>p\<in>set new. \<not> isl p" by auto
    from okb block(2) have lb: "length (fulfilled block) = ?n" by (simp add: fulfilled_all)
    show "rows_generated_for ((fv # fvs) ! k) (fulfilled (block @ new)) = nat (entryCount cpe (draw (j + k)))"
    proof (cases k)
      case 0
      have "filter (\<lambda>g. for_key g = Some fv) (fulfilled block) = fulfilled block"
        using keys_block by (simp add: filter_id_conv)
      moreover have "filter (\<lambda>g. for_key g = Some fv) (fulfilled new) = []"
        using keys_new d by (auto simp: filter_empty_conv)
      ultimately show ?thesis using 0 lb by (simp add: rows_generated_for_def fulfilled_append)
    next
      case (Suc k')
      with k have k': "k' < length fvs" by simp
      with d have ne: "fvs ! k' \<noteq> fv" by auto
      have "filter (\<lambda>g. for_key g = Some (fvs ! k')) (fulfilled block) = []"
        using keys_block ne by (auto simp: filter_empty_conv)
      with new(4) d okn k' Suc show ?thesis by (simp add: rows_generated_for_def fulfilled_append)
    qed
  qed
  show ?case
  proof (intro exI[of _ "block @ new"] conjI)
    show "out = started @ block @ new" using block(1) new(1) by simp
    show "\<forall>g\<in>set (fulfilled (block @ new)). \<exists>fv'\<in>set (fv # fvs).
            built_by schema cols (Some fv') [(tableColumn, Str fv')] (obj_get lookup fv') env g"
      using block(3) new(2) by (auto simp: fulfilled_append)
    show "\<not> conc \<longrightarrow> (\<forall>p\<in>set (block @ new). \<not> isl p)" using block(4) new(3) by auto
    show "distinct (fv # fvs) \<longrightarrow> (\<forall>p\<in>set (block @ new). \<not> isl p) \<longrightarrow> (\<forall>k<length (fv # fvs).
            rows_generated_for ((fv # fvs) ! k) (fulfilled (block @ new)) = nat (entryCount cpe (draw (j + k))))"
      using counts by blast
  qed
qed

lemma find_Some_mem: "find P xs = Some x \<Longrightarrow> x \<in> set xs \<and> P x"
  by (induction xs) (auto split: if_splits)

text \<open>A successful run: every row started was fulfilled, and these are the rows generated.\<close>

lemma generateAll_fulfilled:
  assumes "(if conc then Promise_all rejected_first started else Inr (fulfilled started)) = Inr generated"
    and "\<not> conc \<longrightarrow> (\<forall>p\<in>set started. \<not> isl p)"
  shows "(\<forall>p\<in>set started. \<not> isl p) \<and> generated = fulfilled started"
proof (cases conc)
  case True
  with assms(1) Promise_all_fulfilled[of rejected_first started generated] show ?thesis by simp
next
  case False
  with assms show ?thesis by simp
qed

lemma generateRows_fan_out:
  assumes gen: "generateRows seedConfig schema files draw env rejected_first = Inr (files', generated)"
    and active: "\<not> skip_generate seedConfig" "seedColumns seedConfig = Some cols"
    and cfg: "rowGeneration seedConfig = Some (ForeignTable parentTable foreignColumn tableColumn countPerEntry)"
    and parent: "files parentTable = Some parentRows"
  shows "\<exists>started. generateForKeys (concurrentGeneration seedConfig) schema cols tableColumn countPerEntry
           (foreignRowLookup foreignColumn parentRows) draw env
           (keys (foreignRowLookup foreignColumn parentRows)) 0 [] = Inr started
         \<and> (\<forall>p\<in>set started. \<not> isl p) \<and> generated = fulfilled started"
proof -
  let ?conc = "concurrentGeneration seedConfig"
  let ?loops = "generateForKeys ?conc schema cols tableColumn countPerEntry
           (foreignRowLookup foreignColumn parentRows) draw env
           (keys (foreignRowLookup foreignColumn parentRows)) 0 []"
  from gen active cfg parent obtain started where st: "?loops = Inr started"
    and fin: "(if ?conc then Promise_all rejected_first started else Inr (fulfilled started)) = Inr generated"
    by (auto simp: generateRows_def generateAll_def getTableData_def Let_def split: sum.splits)
  from generateForKeys_appends[OF st] have "\<not> ?conc \<longrightarrow> (\<forall>p\<in>set started. \<not> isl p)" by auto
  from generateAll_fulfilled[OF fin this] st show ?thesis by blast
qed


lemma calls_in_scheduled:
  assumes "generateRowsPromise schema cols row rows frow env = (res, made)"
  shows "call_column ` set made \<subseteq> fst ` set (scheduled schema cols)"
proof
  fix c assume "c \<in> call_column ` set made"
  then obtain k where k: "k < length made" "c = call_column (made ! k)" by (auto simp: in_set_conv_nth)
  with calls_characterised[OF assms] have "k < length (scheduled schema cols)" "c = fst (scheduled schema cols ! k)"
    by auto
  then show "c \<in> fst ` set (scheduled schema cols)" by (metis image_eqI nth_mem)
qed

lemma calls_foreignRow:
  assumes "generateRowsPromise schema cols row rows frow env = (res, made)" "call \<in> set made"
  shows "foreignRow (call_params call) = frow"
proof -
  from assms(2) obtain k where k: "k < length made" "call = made ! k" by (auto simp: in_set_conv_nth)
  with calls_characterised[OF assms(1)] show ?thesis by auto
qed

lemma calls_first_row:
  assumes "generateRowsPromise schema cols row rows frow env = (res, made)" "made \<noteq> []"
  shows "currentRow (call_params (hd made)) = row"
proof -
  from assms(2) have "0 < length made" by simp
  with calls_characterised[OF assms(1)] have "currentRow (call_params (made ! 0)) = assign row (assigned (take 0 made))"
    by blast
  with assms(2) show ?thesis by (simp add: hd_conv_nth)
qed

lemmas rows_eval = generateRows_def generateAll_def getTableData_def foreignRowLookup_def lookup_step_def
  row_key_def Promise_all_def written_row_def
  example_column_def returnConstValue_def foreignRowValue_def selectRandomForeignValue_def
  random_element_def rows_generated_for_def scheduled_def in_schema_def eval_nat_numeral
section \<open>Correctness of the cycle detection\<close>

text \<open>
  The tables in \<open>visited\<close> are closed under dependencies and none of them lies on a
  cycle; \<open>visiting\<close> holds the tables of the current path.
\<close>

definition safe :: "DependencyGraph \<Rightarrow> string set \<Rightarrow> bool" where
  "safe graph V = ((\<forall>v\<in>V. \<forall>w. depends_on graph v w \<longrightarrow> w \<in> V) \<and> (\<forall>v\<in>V. (v, v) \<notin> (edges graph)\<^sup>+))"

definition dfs_inv :: "DependencyGraph \<Rightarrow> string list \<Rightarrow> dfs_state \<Rightarrow> bool" where
  "dfs_inv graph path st =
     (closed_graph graph \<and> visiting st = set path \<and> visiting st \<inter> visited st = {} \<and> safe graph (visited st))"

definition dfs_post ::
  "DependencyGraph \<Rightarrow> string list \<Rightarrow> dfs_state \<Rightarrow> string set \<Rightarrow> (error + string list option) \<times> dfs_state \<Rightarrow> bool" where
  "dfs_post graph path st todo out =
     ((fst out = Inr None \<longrightarrow>
         visiting (snd out) = visiting st \<and> visited st \<subseteq> visited (snd out) \<and> todo \<subseteq> visited (snd out)
         \<and> visiting (snd out) \<inter> visited (snd out) = {} \<and> safe graph (visited (snd out)))
      \<and> (\<forall>c. fst out = Inr (Some c) \<longrightarrow>
            (\<exists>ext t. c = path @ ext @ [t] \<and> t \<in> set (path @ ext) \<and> successively (depends_on graph) c))
      \<and> \<not> isl (fst out))"

lemma safe_reach:
  assumes "safe graph V" "v \<in> V" "(v, w) \<in> (edges graph)\<^sup>*"
  shows "w \<in> V"
  using assms(3,1,2)
  by (induction rule: rtrancl_induct) (auto simp: safe_def edges_def)

lemma safe_insert:
  assumes "safe graph V" "t \<notin> V" "\<forall>w. depends_on graph t w \<longrightarrow> w \<in> V"
  shows "safe graph (insert t V)"
proof -
  have "(t, t) \<notin> (edges graph)\<^sup>+"
  proof
    assume "(t, t) \<in> (edges graph)\<^sup>+"
    then obtain w where w: "(t, w) \<in> edges graph" "(w, t) \<in> (edges graph)\<^sup>*"
      by (meson tranclD)
    with assms(3) have "w \<in> V" by (simp add: edges_def)
    from safe_reach[OF assms(1) this w(2)] assms(2) show False by simp
  qed
  with assms show ?thesis by (auto simp: safe_def)
qed

lemma successively_snoc:
  "successively R (xs @ [x]) \<longleftrightarrow> successively R xs \<and> (xs = [] \<or> R (last xs) x)"
  by (auto simp: successively_append_iff)

lemma dfs_correct:
  "dfs_inv graph path st \<Longrightarrow> has_key graph table \<Longrightarrow> successively (depends_on graph) (path @ [table])
     \<Longrightarrow> dfs_post graph path st {table} (dfs graph table path st)"
  "dfs_inv graph path st \<Longrightarrow> path \<noteq> [] \<Longrightarrow> successively (depends_on graph) path
     \<Longrightarrow> (\<forall>d\<in>set deps. depends_on graph (last path) d)
     \<Longrightarrow> dfs_post graph path st (set deps) (dfs_deps graph deps path st)"
proof (induction graph table path st and graph deps path st rule: dfs_dfs_deps.induct)
  case (1 graph table path st)
  note inv = "1.prems"(1) and key = "1.prems"(2) and chain = "1.prems"(3)
  show ?case
  proof (cases "table \<in> visiting st")
    case True
    then have "dfs graph table path st = (Inr (Some (path @ [table])), st)"
      by (simp add: dfs.simps)
    moreover from True inv have "table \<in> set path" by (simp add: dfs_inv_def)
    ultimately show ?thesis using chain
      by (auto simp: dfs_post_def intro!: exI[of _ "[]"])
  next
    case nvis: False
    show ?thesis
    proof (cases "table \<in> visited st")
      case True
      with nvis have "dfs graph table path st = (Inr None, st)" by (simp add: dfs.simps)
      with True inv show ?thesis by (auto simp: dfs_post_def dfs_inv_def)
    next
      case nfin: False
      let ?st1 = "st\<lparr>visiting := insert table (visiting st)\<rparr>"
      from key obtain node where node: "obj_get graph table = Some node"
        using has_key_obj_get[of graph table] by auto
      let ?run = "dfs_deps graph (dependencies node) (path @ [table]) ?st1"
      have inv1: "dfs_inv graph (path @ [table]) ?st1"
        using inv nfin by (auto simp: dfs_inv_def)
      have deps: "\<forall>d\<in>set (dependencies node). depends_on graph (last (path @ [table])) d"
        using node by (simp add: depends_on_def)
      from "1.IH"[OF nvis nfin refl node inv1 _ chain deps]
      have post: "dfs_post graph (path @ [table]) ?st1 (set (dependencies node)) ?run" by simp
      obtain r st2 where run: "?run = (r, st2)" by (cases ?run)
      have nerr: "\<not> isl r" using post run by (simp add: dfs_post_def)
      show ?thesis
      proof (cases r)
        case (Inl e)
        with nerr show ?thesis by simp
      next
        case (Inr res)
        show ?thesis
        proof (cases res)
          case None
          let ?st3 = "st2\<lparr>visiting := visiting st2 - {table}, visited := insert table (visited st2)\<rparr>"
          from None Inr run nvis nfin node have out: "dfs graph table path st = (Inr None, ?st3)"
            by (simp add: dfs.simps Let_def)
          from post run None Inr have p: "visiting st2 = insert table (visiting st)"
            "visited st \<subseteq> visited st2" "set (dependencies node) \<subseteq> visited st2"
            "visiting st2 \<inter> visited st2 = {}" "safe graph (visited st2)"
            unfolding dfs_post_def by auto
          from p(1,4) have tn: "table \<notin> visited st2" by auto
          have succ: "\<forall>w. depends_on graph table w \<longrightarrow> w \<in> visited st2"
            using node p(3) by (auto simp: depends_on_def)
          from safe_insert[OF p(5) tn succ] have s: "safe graph (insert table (visited st2))" .
          from p(1) nvis have v: "visiting st2 - {table} = visiting st" by auto
          from v p(4) nvis have d: "(visiting st2 - {table}) \<inter> insert table (visited st2) = {}" by auto
          from out v p(2) s d show ?thesis by (auto simp: dfs_post_def)
        next
          case (Some c)
          from Some Inr run nvis nfin node have out: "dfs graph table path st = (Inr (Some c), st2)"
            by (simp add: dfs.simps Let_def)
          from post run Some Inr obtain ext t where c: "c = (path @ [table]) @ ext @ [t]"
            "t \<in> set ((path @ [table]) @ ext)" "successively (depends_on graph) c"
            by (auto simp: dfs_post_def)
          then have "c = path @ (table # ext) @ [t]" "t \<in> set (path @ (table # ext))" by auto
          with c(3) out show ?thesis unfolding dfs_post_def by (metis fst_conv isl_def sum.distinct(1) option.distinct(1) sum.inject(2) option.inject)
        qed
      qed
    qed
  qed
next
  case (2 graph path st)
  then show ?case by (auto simp: dfs_post_def dfs_inv_def)
next
  case (3 graph dep deps path st)
  note inv = "3.prems"(1) and ne = "3.prems"(2) and chain = "3.prems"(3) and deps = "3.prems"(4)
  from deps have d1: "depends_on graph (last path) dep" by simp
  with inv have key: "has_key graph dep" by (auto simp: dfs_inv_def closed_graph_def)
  from chain ne d1 have chain1: "successively (depends_on graph) (path @ [dep])"
    by (simp add: successively_snoc)
  from "3.IH"(1)[OF inv key chain1] have post1: "dfs_post graph path st {dep} (dfs graph dep path st)" .
  obtain r st1 where run: "dfs graph dep path st = (r, st1)" by (cases "dfs graph dep path st")
  have nerr: "\<not> isl r" using post1 run by (simp add: dfs_post_def)
  show ?case
  proof (cases r)
    case (Inl e)
    with nerr show ?thesis by simp
  next
    case (Inr res)
    show ?thesis
    proof (cases res)
      case None
      from post1 run None Inr have p: "visiting st1 = visiting st" "visited st \<subseteq> visited st1"
        "dep \<in> visited st1" "visiting st1 \<inter> visited st1 = {}" "safe graph (visited st1)"
        unfolding dfs_post_def by auto
      have inv1: "dfs_inv graph path st1" using inv p by (simp add: dfs_inv_def)
      from deps have deps': "\<forall>d\<in>set deps. depends_on graph (last path) d" by simp
      from "3.IH"(2)[OF run[symmetric] Inr None inv1 ne chain deps']
      have post2: "dfs_post graph path st1 (set deps) (dfs_deps graph deps path st1)" .
      from run None Inr have out: "dfs_deps graph (dep # deps) path st = dfs_deps graph deps path st1"
        by simp
      from post2 p show ?thesis unfolding out dfs_post_def by auto
    next
      case (Some c)
      from run Some Inr have out: "dfs_deps graph (dep # deps) path st = (Inr (Some c), st1)" by simp
      from post1 run Some Inr show ?thesis unfolding out dfs_post_def by auto
    qed
  qed
qed


lemma roots_correct:
  assumes "dfs_inv graph [] st" "set tables \<subseteq> set (keys graph)"
  shows "(detectCycle_roots graph tables st = Inr None \<longrightarrow>
            (\<exists>V. visited st \<union> set tables \<subseteq> V \<and> safe graph V))
       \<and> (\<forall>c. detectCycle_roots graph tables st = Inr (Some c) \<longrightarrow>
            (\<exists>p t. c = p @ [t] \<and> t \<in> set p \<and> successively (depends_on graph) c))
       \<and> \<not> isl (detectCycle_roots graph tables st)"
  using assms
proof (induction tables arbitrary: st)
  case Nil
  then show ?case by (auto simp: dfs_inv_def)
next
  case (Cons table tables)
  from Cons.prems(2) have key: "has_key graph table" by (simp add: has_key_def)
  from dfs_correct(1)[OF Cons.prems(1) key]
  have post: "dfs_post graph [] st {table} (dfs graph table [] st)" by simp
  obtain r st1 where run: "dfs graph table [] st = (r, st1)" by (cases "dfs graph table [] st")
  have nerr: "\<not> isl r" using post run by (simp add: dfs_post_def)
  show ?case
  proof (cases r)
    case (Inl e)
    with nerr show ?thesis by simp
  next
    case (Inr res)
    show ?thesis
    proof (cases res)
      case None
      from post run None Inr have p: "visiting st1 = visiting st" "visited st \<subseteq> visited st1"
        "table \<in> visited st1" "visiting st1 \<inter> visited st1 = {}" "safe graph (visited st1)"
        unfolding dfs_post_def by auto
      have inv1: "dfs_inv graph [] st1" using Cons.prems(1) p by (simp add: dfs_inv_def)
      from Cons.prems(2) have sub: "set tables \<subseteq> set (keys graph)" by simp
      note IH = Cons.IH[OF inv1 sub]
      from run None Inr have out: "detectCycle_roots graph (table # tables) st = detectCycle_roots graph tables st1"
        by simp
      from IH p(2,3) show ?thesis unfolding out by (auto; blast)
    next
      case (Some c)
      from run Some Inr have out: "detectCycle_roots graph (table # tables) st = Inr (Some c)" by simp
      from post run Some Inr obtain ext t where "c = ext @ [t]" "t \<in> set ext" "successively (depends_on graph) c"
        unfolding dfs_post_def by auto
      then show ?thesis unfolding out by auto
    qed
  qed
qed

lemma chain_trancl:
  "successively R (x # xs @ [y]) \<Longrightarrow> (x, y) \<in> {(a, b). R a b}\<^sup>+"
proof (induction xs arbitrary: x)
  case Nil
  then show ?case by auto
next
  case (Cons z zs)
  then have "R x z" "successively R (z # zs @ [y])" by auto
  with Cons.IH[of z] show ?case by (meson case_prodI mem_Collect_eq trancl_into_trancl2)
qed

lemma repeated_end_is_cycle:
  assumes "successively (depends_on graph) (p @ [t])" "t \<in> set p"
  shows "(t, t) \<in> (edges graph)\<^sup>+"
proof -
  from assms(2) obtain ys zs where p: "p = ys @ t # zs" by (meson split_list)
  with assms(1) have "successively (depends_on graph) (ys @ (t # zs @ [t]))" by simp
  then have "successively (depends_on graph) (t # zs @ [t])"
    unfolding successively_append_iff by blast
  from chain_trancl[OF this] show ?thesis by (simp add: edges_def)
qed

lemma safe_all_acyclic:
  assumes "safe graph V" "set (keys graph) \<subseteq> V"
  shows "acyclic (edges graph)"
proof (rule acyclicI, intro allI notI)
  fix x assume c: "(x, x) \<in> (edges graph)\<^sup>+"
  then obtain w where "(x, w) \<in> edges graph" by (meson tranclD)
  then have "obj_get graph x \<noteq> None" by (auto simp: edges_def depends_on_def split: option.splits)
  then have "x \<in> set (keys graph)" using has_key_obj_get[of graph x] by (simp add: has_key_def)
  with assms c show False by (auto simp: safe_def)
qed

lemma detectCycle_cases:
  assumes "closed_graph graph"
  shows "(detectCycle graph = Inr None \<and> acyclic (edges graph))
       \<or> (\<exists>p t. detectCycle graph = Inr (Some (p @ [t])) \<and> t \<in> set p
              \<and> successively (depends_on graph) (p @ [t]) \<and> \<not> acyclic (edges graph))"
proof -
  let ?st = "\<lparr>visiting = {}, visited = {}\<rparr>"
  have inv: "dfs_inv graph [] ?st" using assms by (simp add: dfs_inv_def safe_def)
  note rc = roots_correct[OF inv subset_refl, folded detectCycle_def]
  show ?thesis
  proof (cases "detectCycle graph")
    case (Inl e)
    with rc show ?thesis by simp
  next
    case (Inr res)
    show ?thesis
    proof (cases res)
      case None
      with Inr rc obtain V where "set (keys graph) \<subseteq> V" "safe graph V" by auto
      from safe_all_acyclic[OF this(2,1)] None Inr show ?thesis by simp
    next
      case (Some c)
      with Inr rc obtain p t where c: "c = p @ [t]" "t \<in> set p" "successively (depends_on graph) c"
        by auto
      from repeated_end_is_cycle[of graph p t] c have "(t, t) \<in> (edges graph)\<^sup>+" by simp
      then have "\<not> acyclic (edges graph)" by (auto simp: acyclic_def)
      with c Some Inr show ?thesis by auto
    qed
  qed
qed

section \<open>The example graphs\<close>

lemmas graph_eval = table_node_def keys_def obj_get_def has_key_def depends_on_def dependent_of_def

lemma closed_chain_graph: "closed_graph chain_graph"
  by (auto simp: closed_graph_def chain_graph_def graph_eval split: if_splits)

lemma closed_lead_in_graph: "closed_graph lead_in_graph"
  by (auto simp: closed_graph_def lead_in_graph_def graph_eval split: if_splits)

lemma detectCycle_chain_graph: "detectCycle chain_graph = Inr None"
  by (simp add: detectCycle_def chain_graph_def dfs.simps graph_eval)

lemma detectCycle_lead_in_graph: "detectCycle lead_in_graph = Inr (Some [''a'', ''b'', ''c'', ''b''])"
  by (simp add: detectCycle_def lead_in_graph_def dfs.simps graph_eval)

lemma acyclic_if_no_cycle_found:
  "closed_graph graph \<Longrightarrow> detectCycle graph = Inr None \<Longrightarrow> acyclic (edges graph)"
  using detectCycle_cases[of graph] by auto



lemma consistent_unnamed_table_graph: "consistent_graph unnamed_table_graph"
  by (auto simp: consistent_graph_def unnamed_table_graph_def graph_eval split: if_splits)

lemma acyclic_unnamed_table_graph: "acyclic (edges unnamed_table_graph)"
proof (rule acyclic_if_no_cycle_found)
  show "closed_graph unnamed_table_graph"
    by (auto simp: closed_graph_def unnamed_table_graph_def graph_eval split: if_splits)
  show "detectCycle unnamed_table_graph = Inr None"
    by (simp add: detectCycle_def unnamed_table_graph_def dfs.simps graph_eval)
qed

lemma consistent_repeated_dependency_graph: "consistent_graph repeated_dependency_graph"
  by (auto simp: consistent_graph_def repeated_dependency_graph_def graph_eval split: if_splits)

lemma acyclic_repeated_dependency_graph: "acyclic (edges repeated_dependency_graph)"
proof (rule acyclic_if_no_cycle_found)
  show "closed_graph repeated_dependency_graph"
    by (auto simp: closed_graph_def repeated_dependency_graph_def graph_eval split: if_splits)
  show "detectCycle repeated_dependency_graph = Inr None"
    by (simp add: detectCycle_def repeated_dependency_graph_def dfs.simps graph_eval)
qed



lemma order_unnamed_table_graph: "getTableOrderForOperations unnamed_table_graph = Inr []"
  by (simp add: getTableOrderForOperations_def detectCycle_def unnamed_table_graph_def dfs.simps
      inDegree_of_def graph_eval obj_eval)

lemma order_repeated_dependency_graph: "getTableOrderForOperations repeated_dependency_graph = Inr [''b'']"
  by (simp add: getTableOrderForOperations_def detectCycle_def repeated_dependency_graph_def dfs.simps
      inDegree_of_def graph_eval obj_eval)



section \<open>Correctness of the topological order\<close>


















section \<open>Properties of deduplication\<close>














section \<open>Choosing a random element and a random foreign value\<close>

lemma random_element_in_range:
  assumes "0 \<le> r" "r < 1" "xs \<noteq> []"
  shows "\<exists>i<length xs. random_element r xs = Some (xs ! i)"
proof -
  let ?n = "length xs"
  have n: "0 < real ?n" using assms(3) by simp
  have lo: "0 \<le> \<lfloor>r * real ?n\<rfloor>" using assms(1) by simp
  have "r * real ?n < real ?n" using assms(2) n by simp
  then have hi: "\<lfloor>r * real ?n\<rfloor> < int ?n" by (simp add: floor_less_iff)
  from lo hi have "nat \<lfloor>r * real ?n\<rfloor> < ?n" by linarith
  moreover have "random_element r xs = Some (xs ! nat \<lfloor>r * real ?n\<rfloor>)"
    using lo hi by (simp add: random_element_def Let_def)
  ultimately show ?thesis by blast
qed

text \<open>
  Claim C8. With the random source in \<open>[0, 1)\<close>, \<open>selectRandomForeignValue(table, column)\<close>
  throws exactly when the snapshot of the table is absent or has no rows and the
  destination column is not nullable (\<open>is_nullable == 'NO'\<close>); with an absent or empty
  snapshot and a nullable destination column it returns \<open>null\<close>; otherwise it returns
  the named column of one of the rows of the snapshot.
\<close>

theorem selectRandomForeignValue_outcomes:
  assumes "0 \<le> random env" "random env < 1"
  shows "(isl (selectRandomForeignValue table column params env)
            \<longleftrightarrow> (snapshots env table = None \<or> snapshots env table = Some [])
                 \<and> is_nullable (columnSchema params) = ''NO'')
       \<and> ((snapshots env table = None \<or> snapshots env table = Some [])
             \<and> is_nullable (columnSchema params) \<noteq> ''NO''
           \<longrightarrow> selectRandomForeignValue table column params env = Inr Null)
       \<and> (\<forall>fileRows. snapshots env table = Some fileRows \<and> fileRows \<noteq> [] \<longrightarrow>
             (\<exists>i<length fileRows.
                selectRandomForeignValue table column params env = Inr (row_get (fileRows ! i) column)))"
proof (cases "snapshots env table")
  case None
  then show ?thesis by (simp add: selectRandomForeignValue_def)
next
  case (Some fileRows)
  show ?thesis
  proof (cases "fileRows = []")
    case True
    with Some show ?thesis by (simp add: selectRandomForeignValue_def)
  next
    case False
    from random_element_in_range[OF assms False]
    obtain i where "i < length fileRows" "random_element (random env) fileRows = Some (fileRows ! i)"
      by blast
    with Some False show ?thesis by (auto simp: selectRandomForeignValue_def)
  qed
qed

theorem selectRandomForeignValue_outcomes_witness:
  "(0::real) \<le> random \<lparr>snapshots = example_files, random = 1 / 2\<rparr>
   \<and> random \<lparr>snapshots = example_files, random = 1 / 2\<rparr> < 1
   \<and> example_files ''users'' = Some [[(''id'', Str ''u1'')], [(''id'', Str ''u2'')]]
   \<and> \<not> isl (selectRandomForeignValue ''users'' ''id'' (example_params [] None)
               \<lparr>snapshots = example_files, random = 1 / 2\<rparr>)
   \<and> selectRandomForeignValue ''users'' ''id'' (example_params [] None)
         \<lparr>snapshots = example_files, random = 1 / 2\<rparr> = Inr (Str ''u2'')
   \<and> selectRandomForeignValue ''estimates'' ''id'' (example_params [] None)
         \<lparr>snapshots = example_files, random = 1 / 2\<rparr> = Inl (FileNotFound ''estimates'')"
  using selectRandomForeignValue_outcomes[of "\<lparr>snapshots = example_files, random = 1 / 2\<rparr>"
          "''users''" "''id''" "example_params [] None"]
  by (simp add: selectRandomForeignValue_def random_element_def example_files_def
        example_params_def example_column_def row_get_def obj_get_def)

section \<open>Order of the generators and skipped columns\<close>




text \<open>
  Claim C10, amended. A generator declared for a column that the table schema does not
  have is never invoked, the run is the same as without that entry (nothing is raised
  for it), and \<open>generateRowsPromise\<close> adds no entry for that column: the finished row
  has for that column exactly what the row handed in had. So the finished row has no
  entry for it unless the row was seeded with one, as the fan-out mode does for its
  child column.
\<close>

theorem unscheduled_generator_is_skipped:
  assumes "generateRowsPromise schema cols row rows parentRow env = (res, made)"
    and "c \<notin> column_name ` set (columns schema)"
  shows "c \<notin> call_column ` set made
    \<and> generateRowsPromise schema (filter (\<lambda>(c', g). c' \<noteq> c) cols) row rows parentRow env = (res, made)
    \<and> (\<forall>finished_row. res = Inr finished_row \<longrightarrow> obj_get finished_row c = obj_get row c)"
proof -
  note ch = calls_characterised[OF assms(1)]
  from assms(2) have ns: "\<not> in_schema schema c" by (simp add: in_schema_iff)
  have a: "c \<notin> call_column ` set made"
  proof
    assume "c \<in> call_column ` set made"
    then obtain k where k: "k < length made" "call_column (made ! k) = c"
      by (auto simp: in_set_conv_nth)
    with ch have "find (\<lambda>column. column_name column = c) (columns schema) \<noteq> None" by auto
    with ns show False by (simp add: in_schema_def)
  qed
  have b: "generateRowsPromise schema (filter (\<lambda>(c', g). c' \<noteq> c) cols) row rows parentRow env = (res, made)"
    using skip_unscheduled[OF ns, of cols row rows parentRow env] assms(1) by simp
  have c: "\<forall>finished_row. res = Inr finished_row \<longrightarrow> obj_get finished_row c = obj_get row c"
  proof (intro allI impI)
    fix finished_row assume "res = Inr finished_row"
    with ch have f: "finished_row = assign row (assigned made)" by simp
    from a assigned_columns[of made] have "c \<notin> fst ` set (assigned made)" by blast
    with f show "obj_get finished_row c = obj_get row c" by (simp add: obj_get_assign_other)
  qed
  from a b c show ?thesis by blast
qed

theorem unscheduled_generator_is_skipped_witness:
  "''unknown'' \<notin> column_name ` set (columns example_schema)
   \<and> ''unknown'' \<notin> call_column ` set (snd example_run)
   \<and> obj_get [(''id'', Str ''s1''), (''name'', Str ''s1'')] ''unknown'' = None"
  using unscheduled_generator_is_skipped[of example_schema example_generators "[]" "[]" None quiet
          "fst example_run" "snd example_run" "''unknown''"]
  by (simp add: example_run_def example_generators_def example_schema_def example_column_def
      returnConstValue_def currentRowValue_def quiet_def obj_eval)

text \<open>
  The claim as stated fails when the fan-out child column is itself not a column of the
  table: the row is seeded with it, the generator declared for it is passed over, and
  the finished row keeps the seeded entry.
\<close>

theorem seeded_column_outside_schema_counterexample:
  "\<not> in_schema example_schema ''project''
   \<and> fst (generateRowsPromise example_schema
             [(''name'', returnConstValue (Str ''Todo'')), (''project'', returnConstValue (Str ''zzz''))]
             [(''project'', Str ''p1'')] [] (Some [(''id'', Str ''p1'')]) quiet)
       = Inr [(''project'', Str ''p1''), (''name'', Str ''Todo'')]
   \<and> has_key [(''project'', Str ''p1''), (''name'', Str ''Todo'')] ''project''
   \<and> map finished (snd (projr (generateRows misnamed_column_config example_schema example_files
                                  zero_draw quiet_rows lowest_first)))
       = [[(''project'', Str ''p1''), (''name'', Str ''Todo'')],
          [(''project'', Str ''p2''), (''name'', Str ''Todo'')]]"
  by (simp add: misnamed_column_config_def example_files_def zero_draw_def quiet_rows_def lowest_first_def
      example_schema_def quiet_def rows_eval obj_eval)

section \<open>Restoration of constraint enforcement\<close>




section \<open>The stateful name generators\<close>

lemma stateNameGenerator_lookup:
  "snd (stateNameGenerator lookup params r) = lookup
   \<or> snd (stateNameGenerator lookup params r)
       = obj_set lookup (to_key (row_get (currentRow params) ''project_id'')) []"
  by (simp add: stateNameGenerator_def Let_def)

text \<open>
  Claim C6. The claim asks that each returned name is recorded in the used list of its
  project and never returned again for that project. Neither generator ever adds a name
  to a used list: a call creates the empty list of the project if it is missing and
  changes nothing else. Two calls for project \<open>p1\<close> with the random source at 0 both
  return \<open>Cancelled\<close> (\<open>Bug\<close> for the labels), and the used list of \<open>p1\<close> is empty after
  each of them.
\<close>

theorem stateful_generators_record_nothing:
  "stateNameGenerator [] (example_params [(''project_id'', Str ''p1'')] None) 0
     = (Inr (Str ''Cancelled''), [(''p1'', [])])
   \<and> stateNameGenerator [(''p1'', [])] (example_params [(''project_id'', Str ''p1'')] None) 0
     = (Inr (Str ''Cancelled''), [(''p1'', [])])
   \<and> labelNameGenerator [] (example_params [(''project_id'', Str ''p1'')] None) 0
     = (Inr (Str ''Bug''), [(''p1'', [])])
   \<and> labelNameGenerator [(''p1'', [])] (example_params [(''project_id'', Str ''p1'')] None) 0
     = (Inr (Str ''Bug''), [(''p1'', [])])"
  by (simp add: stateNameGenerator_def labelNameGenerator_def STATES_def LABELS_def
      random_element_def example_params_def object_prototype_members_def obj_eval)

section \<open>Fan-out generation\<close>




text \<open>
  Claim C5, amended. In a fan-out generation every generated row is built for one parent
  key: its generation starts from the row that holds only the child foreign-key column,
  set to that key, and every generator invoked for it receives as \<open>foreignRow\<close> the
  parent row matched by the key (the last row of the parent snapshot with that key). The
  finished row has its child foreign-key column equal to the key provided the columns
  map declares no generator for that column that the table schema has; when it declares
  one, the finished row has the result of that generator in the column.
\<close>

theorem fan_out_rows_start_from_parent:
  assumes "generateRows seedConfig schema files draw env rejected_first = Inr (files', generated)"
    and "\<not> skip_generate seedConfig" and "seedColumns seedConfig = Some cols"
    and "rowGeneration seedConfig = Some (ForeignTable parentTable foreignColumn tableColumn countPerEntry)"
    and "files parentTable = Some parentRows" and "g \<in> set generated"
  shows "\<exists>fv parent. for_key g = Some fv
          \<and> parent \<in> set parentRows \<and> row_key parent foreignColumn = fv
          \<and> find (\<lambda>r. row_key r foreignColumn = fv) (rev parentRows) = Some parent
          \<and> (\<forall>call\<in>set (calls g). foreignRow (call_params call) = Some parent)
          \<and> (calls g \<noteq> [] \<longrightarrow> currentRow (call_params (hd (calls g))) = [(tableColumn, Str fv)])
          \<and> (tableColumn \<notin> fst ` set (scheduled schema cols) \<longrightarrow> row_get (finished g) tableColumn = Str fv)
          \<and> (distinct (map fst cols) \<longrightarrow>
               (\<forall>call\<in>set (calls g). call_column call = tableColumn
                  \<longrightarrow> row_get (finished g) tableColumn = projr (call_result call)))"
proof -
  let ?lookup = "foreignRowLookup foreignColumn parentRows"
  from generateRows_fan_out[OF assms(1) assms(2) assms(3) assms(4) assms(5)]
  obtain started where run: "generateForKeys (concurrentGeneration seedConfig) schema cols tableColumn countPerEntry
           ?lookup draw env (keys ?lookup) 0 [] = Inr started"
    and gen: "generated = fulfilled started" by blast
  from generateForKeys_appends[OF run] assms(6) gen
  obtain fv where fv: "fv \<in> set (keys ?lookup)"
    "built_by schema cols (Some fv) [(tableColumn, Str fv)] (obj_get ?lookup fv) env g" by auto
  then obtain rows i where gk: "for_key g = Some fv"
    and gr: "generateRowsPromise schema cols [(tableColumn, Str fv)] rows (obj_get ?lookup fv) (env i)
               = (Inr (finished g), calls g)"
    unfolding built_by_def by blast
  from fv(1) obtain parent where p: "obj_get ?lookup fv = Some parent"
    using has_key_obj_get[of ?lookup fv] by (auto simp: has_key_def)
  then have f: "find (\<lambda>r. row_key r foreignColumn = fv) (rev parentRows) = Some parent"
    by (rule obj_get_foreignRowLookup)
  then have pin: "parent \<in> set parentRows" "row_key parent foreignColumn = fv"
    using find_Some_mem[OF f] by simp_all
  have c1: "\<forall>call\<in>set (calls g). foreignRow (call_params call) = Some parent"
    using calls_foreignRow[OF gr] p by simp
  have c2: "calls g \<noteq> [] \<longrightarrow> currentRow (call_params (hd (calls g))) = [(tableColumn, Str fv)]"
    using calls_first_row[OF gr] by simp
  have c3: "tableColumn \<notin> fst ` set (scheduled schema cols) \<longrightarrow> row_get (finished g) tableColumn = Str fv"
  proof
    assume "tableColumn \<notin> fst ` set (scheduled schema cols)"
    with calls_in_scheduled[OF gr] assigned_columns[of "calls g"]
    have "tableColumn \<notin> fst ` set (assigned (calls g))" by blast
    moreover from calls_characterised[OF gr]
    have "finished g = assign [(tableColumn, Str fv)] (assigned (calls g))" by simp
    ultimately have "obj_get (finished g) tableColumn = obj_get [(tableColumn, Str fv)] tableColumn"
      by (simp add: obj_get_assign_other)
    then show "row_get (finished g) tableColumn = Str fv" by (simp add: row_get_def obj_get_def)
  qed
  have c4: "distinct (map fst cols) \<longrightarrow>
               (\<forall>call\<in>set (calls g). call_column call = tableColumn
                  \<longrightarrow> row_get (finished g) tableColumn = projr (call_result call))"
  proof (intro impI ballI)
    fix call assume d: "distinct (map fst cols)" and call: "call \<in> set (calls g)"
      and col: "call_column call = tableColumn"
    note ch = calls_characterised[OF gr]
    from ch have fin: "finished g = assign [(tableColumn, Str fv)] (assigned (calls g))"
      and ok: "\<forall>call\<in>set (calls g). \<not> isl (call_result call)"
      and len: "length (calls g) = length (scheduled schema cols)" by simp_all
    have "map call_column (calls g) = map fst (scheduled schema cols)"
    proof (rule nth_equalityI)
      show "length (map call_column (calls g)) = length (map fst (scheduled schema cols))"
        using len by simp
    next
      fix i assume "i < length (map call_column (calls g))"
      with ch show "map call_column (calls g) ! i = map fst (scheduled schema cols) ! i" by simp
    qed
    moreover have "distinct (map fst (scheduled schema cols))"
      unfolding scheduled_def using d by (rule distinct_map_filter)
    ultimately have dist: "distinct (map fst (assigned (calls g)))"
      using assigned_all_succeeded[OF ok] by simp
    from call col have "(tableColumn, projr (call_result call)) \<in> set (assigned (calls g))"
      unfolding assigned_succeeded[OF ok] by force
    moreover have "has_key [(tableColumn, Str fv)] tableColumn" by (simp add: has_key_def keys_def)
    ultimately have "obj_get (finished g) tableColumn = Some (projr (call_result call))"
      unfolding fin using obj_get_assign_mem[OF dist] by blast
    then show "row_get (finished g) tableColumn = projr (call_result call)" by (simp add: row_get_def)
  qed
  from gk pin f c1 c2 c3 c4 show ?thesis by blast
qed

theorem fan_out_rows_start_from_parent_witness:
  "\<not> isl projects_run
   \<and> ''workspace_id'' \<notin> fst ` set (scheduled projects_schema [(''name'', foreignRowValue ''name'')])
   \<and> for_key (snd (projr projects_run) ! 2) = Some ''w2''
   \<and> row_get (finished (snd (projr projects_run) ! 2)) ''workspace_id'' = Str ''w2''
   \<and> map (\<lambda>call. foreignRow (call_params call)) (calls (snd (projr projects_run) ! 2))
       = [Some [(''id'', Str ''w2''), (''name'', Str ''Beta'')]]"
  using fan_out_rows_start_from_parent[of projects_config projects_schema workspace_files half_draw first_row_env
          lowest_first
          "fst (projr projects_run)" "snd (projr projects_run)" "[(''name'', foreignRowValue ''name'')]"
          "''workspaces''" "''id''" "''workspace_id''"
          "Range 1 2" "[[(''id'', Str ''w1''), (''name'', Str ''Acme'')], [(''id'', Str ''w2''), (''name'', Str ''Beta'')]]"
          "snd (projr projects_run) ! 2"]
  by (simp add: projects_run_def projects_config_def projects_schema_def workspace_files_def
      half_draw_def first_row_env_def lowest_first_def rows_eval obj_eval)

text \<open>
  The claim as stated fails when the columns map declares a generator for the child
  foreign-key column, as the configuration of \<open>projects\<close> does with
  \<open>selectRandomForeignValue('workspaces', 'id')\<close>: the generator's result overwrites
  the key, and the row generated for workspace \<open>w2\<close> ends with \<open>workspace_id = w1\<close>.
\<close>

theorem key_generator_overrides_parent_key_counterexample:
  "map for_key (snd (projr projects_run_with_key_generator)) = [Some ''w1'', Some ''w2'']
   \<and> map finished (snd (projr projects_run_with_key_generator))
       = [[(''workspace_id'', Str ''w1''), (''name'', Str ''Acme'')],
          [(''workspace_id'', Str ''w1''), (''name'', Str ''Beta'')]]
   \<and> \<not> isl projects_run_with_key_generator"
  by (simp add: projects_run_with_key_generator_def projects_config_with_key_generator_def
      projects_schema_def workspace_files_def
      zero_draw_def first_row_env_def lowest_first_def rows_eval obj_eval)
section \<open>Cycle detection\<close>

text \<open>
  Claim C2, amended. For a dependency graph whose dependencies name only tables of the
  graph: if the graph has no cycle, \<open>detectCycle\<close> returns \<open>null\<close>; if it has a cycle,
  \<open>detectCycle\<close> returns a path of dependency edges whose last table occurs earlier in
  the path. So the path ends in a cycle; it starts at the root of the traversal, which
  need not be the table at which the cycle closes.
\<close>

theorem detectCycle_finds_cycles:
  assumes "closed_graph graph"
  shows "(acyclic (edges graph) \<longrightarrow> detectCycle graph = Inr None)
       \<and> (\<not> acyclic (edges graph) \<longrightarrow>
            (\<exists>p t. detectCycle graph = Inr (Some (p @ [t])) \<and> t \<in> set p
                 \<and> successively (depends_on graph) (p @ [t])))"
  using detectCycle_cases[OF assms] by auto

theorem detectCycle_finds_cycles_witness:
  "closed_graph chain_graph \<and> acyclic (edges chain_graph) \<and> detectCycle chain_graph = Inr None
   \<and> closed_graph lead_in_graph \<and> \<not> acyclic (edges lead_in_graph)
   \<and> detectCycle lead_in_graph = Inr (Some ([''a'', ''b'', ''c''] @ [''b'']))"
  using detectCycle_finds_cycles[OF closed_chain_graph] detectCycle_finds_cycles[OF closed_lead_in_graph]
    closed_chain_graph closed_lead_in_graph detectCycle_chain_graph detectCycle_lead_in_graph
  by auto

text \<open>
  The claim as stated fails when the traversal reaches the cycle from a table outside
  it: with \<open>a\<close> depending on \<open>b\<close>, and \<open>b\<close> and \<open>c\<close> depending on each other, the path
  returned starts at \<open>a\<close> and ends at \<open>b\<close>.
\<close>

theorem detectCycle_path_with_lead_in_counterexample:
  "detectCycle lead_in_graph = Inr (Some [''a'', ''b'', ''c'', ''b''])
   \<and> hd [''a'', ''b'', ''c'', ''b''] \<noteq> last [''a'', ''b'', ''c'', ''b'']
   \<and> depends_on lead_in_graph ''b'' ''c'' \<and> depends_on lead_in_graph ''c'' ''b''"
  by (simp add: detectCycle_def lead_in_graph_def dfs.simps graph_eval)

section \<open>Topological order\<close>



end
